theory Spec2Isabelle
  imports Complex_Main "HOL-Library.Sublist"
begin

section \<open>Strings\<close>

text \<open>
  A JavaScript string is a sequence of UTF-16 code units.  A code unit is modelled as a
  natural number, so that the white space and line terminators beyond ASCII
  (U+00A0, U+2028, U+FEFF, ...) that the regular expressions and \<^verbatim>\<open>trim\<close> of the
  program look at are all present.  \<open>str\<close> turns an ASCII literal into such a string.
\<close>

type_synonym jschar = nat
type_synonym jsstring = "jschar list"

definition str :: "string \<Rightarrow> jsstring" where
  "str = map of_char"

abbreviation LF :: jschar where "LF \<equiv> 10"
abbreviation CR :: jschar where "CR \<equiv> 13"
abbreviation SLASH :: jschar where "SLASH \<equiv> 47"
abbreviation DOT :: jschar where "DOT \<equiv> 46"

text \<open>ECMAScript \<^verbatim>\<open>LineTerminator\<close>: LF, CR, U+2028, U+2029.\<close>

definition is_lt :: "jschar \<Rightarrow> bool" where
  "is_lt c = (c = 10 \<or> c = 13 \<or> c = 8232 \<or> c = 8233)"

text \<open>
  ECMAScript \<^verbatim>\<open>\s\<close> and the characters \<^verbatim>\<open>trim\<close> strips: \<^verbatim>\<open>WhiteSpace\<close> (TAB, VT, FF,
  ZWNBSP and the Unicode category Zs) together with \<^verbatim>\<open>LineTerminator\<close>.
\<close>

definition is_ws :: "jschar \<Rightarrow> bool" where
  "is_ws c = (c = 9 \<or> c = 10 \<or> c = 11 \<or> c = 12 \<or> c = 13 \<or> c = 32 \<or> c = 160
     \<or> c = 5760 \<or> (8192 \<le> c \<and> c \<le> 8202) \<or> c = 8232 \<or> c = 8233 \<or> c = 8239
     \<or> c = 8287 \<or> c = 12288 \<or> c = 65279)"

text \<open>\<^verbatim>\<open>String.prototype.trim\<close>.\<close>

definition trim :: "jsstring \<Rightarrow> jsstring" where
  "trim s = rev (dropWhile is_ws (rev (dropWhile is_ws s)))"

text \<open>\<^verbatim>\<open>Array.prototype.join\<close> on an array of strings.\<close>

fun join :: "jsstring \<Rightarrow> jsstring list \<Rightarrow> jsstring" where
  "join sep [] = []"
| "join sep [x] = x"
| "join sep (x # y # ys) = x @ sep @ join sep (y # ys)"

text \<open>
  \<^verbatim>\<open>input.split(/\r?\n/g)\<close>: the separator is a line feed, together with the carriage
  return before it when there is one.  The empty input has the one line \<^verbatim>\<open>""\<close>.
\<close>

fun split_lines :: "jsstring \<Rightarrow> jsstring list" where
  "split_lines [] = [ [] ]"
| "split_lines (c # cs) =
     (if c = LF then [] # split_lines cs
      else if c = CR \<and> take 1 cs = [LF] then [] # split_lines (drop 1 cs)
      else (case split_lines cs of [] \<Rightarrow> [ [c] ] | l # ls \<Rightarrow> (c # l) # ls))"

text \<open>\<^verbatim>\<open>s.split("/")\<close>, used by the model of the path library below.\<close>

fun split_on :: "jschar \<Rightarrow> jsstring \<Rightarrow> jsstring list" where
  "split_on d [] = [ [] ]"
| "split_on d (c # cs) =
     (if c = d then [] # split_on d cs
      else (case split_on d cs of [] \<Rightarrow> [ [c] ] | l # ls \<Rightarrow> (c # l) # ls))"

section \<open>Values and errors\<close>

text \<open>
  The values \<^verbatim>\<open>JSON.parse\<close> produces, and \<^verbatim>\<open>undefined\<close>.  An object is the list of its own
  properties.  A number is kept as the exact value of its literal.
\<close>

datatype jsval =
    JUndefined
  | JNull
  | JBool bool
  | JNum rat
  | JStr jsstring
  | JArr "jsval list"
  | JObj "(jsstring \<times> jsval) list"

text \<open>
  Modelled from the spec: the class \<^verbatim>\<open>CompilerError\<close> is declared in \<^verbatim>\<open>./types\<close>, which is not
  among the sources.  Its constructor is called with a severity, a message, an error code
  and, where given, a span and a context; these are the fields the spec lists for a
  diagnostic.  The contexts are the ones the calls pass.  Besides it the program can end in
  an error of the runtime itself.
\<close>

datatype native_error = SyntaxError | TypeError

datatype error_context =
    NoContext
  | AliasContext jsstring
  | OutFileContext jsstring
  | CauseContext native_error

datatype exn =
    CompilerError (severity: jsval) (message: jsval) (errorCode: jsval) (span: jsval)
      (errorContext: error_context)
  | NativeError native_error

section \<open>Regular expressions\<close>

text \<open>
  The patterns of the program are sequences of anchors, single characters, a greedy starred
  character class and one capturing group \<^verbatim>\<open>(c+)\<close>.  \<open>rx_match\<close> is the backtracking matcher
  of ECMAScript on such a sequence: a greedy quantifier takes the longest run first and
  gives characters back one at a time.  \<open>prev\<close> is the character before the position
  (\<open>None\<close> at the start of the input), which \<^verbatim>\<open>^\<close> under the \<^verbatim>\<open>m\<close> flag looks at; the result
  is the text of the group.
\<close>

datatype rx_item =
    Bol
  | Eol
  | One "jschar \<Rightarrow> bool"
  | Star "jschar \<Rightarrow> bool"
  | Group_Plus "jschar \<Rightarrow> bool"

fun first_some :: "'a option list \<Rightarrow> 'a option" where
  "first_some [] = None"
| "first_some (None # xs) = first_some xs"
| "first_some (Some x # xs) = Some x"

definition prev_after :: "jschar option \<Rightarrow> jsstring \<Rightarrow> jschar option" where
  "prev_after prev t = (if t = [] then prev else Some (last t))"

fun rx_match :: "rx_item list \<Rightarrow> jschar option \<Rightarrow> jsstring \<Rightarrow> jsstring \<Rightarrow> jsstring option" where
  "rx_match [] prev s cap = Some cap"
| "rx_match (Bol # r) prev s cap =
     (if (case prev of None \<Rightarrow> True | Some c \<Rightarrow> is_lt c) then rx_match r prev s cap else None)"
| "rx_match (Eol # r) prev s cap =
     (if (case s of [] \<Rightarrow> True | c # _ \<Rightarrow> is_lt c) then rx_match r prev s cap else None)"
| "rx_match (One p # r) prev s cap =
     (case s of [] \<Rightarrow> None | c # cs \<Rightarrow> if p c then rx_match r (Some c) cs cap else None)"
| "rx_match (Star p # r) prev s cap =
     first_some (map (\<lambda>k. rx_match r (prev_after prev (take k s)) (drop k s) cap)
       (rev [0..<Suc (length (takeWhile p s))]))"
| "rx_match (Group_Plus p # r) prev s cap =
     first_some (map (\<lambda>k. rx_match r (prev_after prev (take k s)) (drop k s) (take k s))
       (rev [1..<Suc (length (takeWhile p s))]))"

text \<open>
  \<^verbatim>\<open>re.exec(s)\<close> with \<^verbatim>\<open>lastIndex = 0\<close>: the match at the leftmost start position, as the
  text of group 1.  \<^verbatim>\<open>re.test(s)\<close> is whether there is one.
\<close>

definition regexp_exec :: "rx_item list \<Rightarrow> jsstring \<Rightarrow> jsstring option" where
  "regexp_exec re s =
     first_some (map (\<lambda>i. rx_match re (prev_after None (take i s)) (drop i s) [])
       [0..<Suc (length s)])"

definition regexp_test :: "rx_item list \<Rightarrow> jsstring \<Rightarrow> bool" where
  "regexp_test re s = (regexp_exec re s \<noteq> None)"

text \<open>A literal character, and a letter under the \<^verbatim>\<open>i\<close> flag (given in lower case).\<close>

definition lit :: "char \<Rightarrow> rx_item" where
  "lit c = One (\<lambda>x. x = of_char c)"

definition lit_ci :: "char \<Rightarrow> rx_item" where
  "lit_ci c = One (\<lambda>x. x = of_char c \<or> x + 32 = of_char c)"

text \<open>\<^verbatim>\<open>/^\s*\/\/\s*@filename:\s*(.+)$/gim\<close>\<close>

definition fileNameRegexp :: "rx_item list" where
  "fileNameRegexp =
     [Bol, Star is_ws, lit CHR ''/'', lit CHR ''/'', Star is_ws, lit CHR ''@'',
      lit_ci CHR ''f'', lit_ci CHR ''i'', lit_ci CHR ''l'', lit_ci CHR ''e'',
      lit_ci CHR ''n'', lit_ci CHR ''a'', lit_ci CHR ''m'', lit_ci CHR ''e'', lit CHR '':'',
      Star is_ws, Group_Plus (\<lambda>c. \<not> is_lt c), Eol]"

section \<open>Paths\<close>

text \<open>
  Modelled from the spec: \<^verbatim>\<open>path.resolve\<close> and \<^verbatim>\<open>path.dirname\<close> belong to the POSIX flavour of
  the \<^verbatim>\<open>node:path\<close> library, which is not part of the repository.  \<^verbatim>\<open>path.resolve("/", p)\<close>
  normalises \<open>p\<close> to an absolute path: the segments between slashes are read from left to
  right, an empty segment and \<^verbatim>\<open>.\<close> are dropped, \<^verbatim>\<open>..\<close> removes the segment before it (and
  nothing at the root), and the segments left are joined behind one leading slash.
\<close>

fun normalize_segments :: "jsstring list \<Rightarrow> jsstring list \<Rightarrow> jsstring list" where
  "normalize_segments acc [] = acc"
| "normalize_segments acc (s # ss) =
     (if s = [] \<or> s = [DOT] then normalize_segments acc ss
      else if s = [DOT, DOT] then normalize_segments (butlast acc) ss
      else normalize_segments (acc @ [s]) ss)"

definition resolve_root :: "jsstring \<Rightarrow> jsstring" where
  "resolve_root p = SLASH # join [SLASH] (normalize_segments [] (split_on SLASH p))"

text \<open>
  \<^verbatim>\<open>path.dirname(p)\<close> scans \<open>p\<close> from its end down to index 1: it skips the slashes at the
  end, then the last segment, and cuts at the slash before that segment.
\<close>

definition dirname :: "jsstring \<Rightarrow> jsstring" where
  "dirname p =
     (if p = [] then [DOT]
      else
        let hasRoot = (hd p = SLASH);
            r = dropWhile (\<lambda>c. c \<noteq> SLASH) (dropWhile (\<lambda>c. c = SLASH) (rev (tl p)))
        in if r = [] then (if hasRoot then [SLASH] else [DOT])
           else if hasRoot \<and> length r = 1 then [SLASH, SLASH]
           else take (length r) p)"

text \<open>
  A segment that stays in a normalized path, and an absolute path in normal form: \<^verbatim>\<open>/\<close>
  alone, or a slash before segments, separated by single slashes, that are not empty, \<^verbatim>\<open>.\<close>
  or \<^verbatim>\<open>..\<close>.
\<close>

definition good_segment :: "jsstring \<Rightarrow> bool" where
  "good_segment s = (s \<noteq> [] \<and> s \<noteq> [DOT] \<and> s \<noteq> [DOT, DOT])"

definition normalized_abs :: "jsstring \<Rightarrow> bool" where
  "normalized_abs k =
     (take 1 k = [SLASH] \<and> (tl k = [] \<or> list_all good_segment (split_on SLASH (tl k))))"

section \<open>File maps and the multiplex decoder\<close>

text \<open>
  A JavaScript \<^verbatim>\<open>Map\<close> keeps its keys in the order of their first insertion; \<^verbatim>\<open>set\<close> on a
  key already there replaces the value in place.  A FileMap is the list of its entries.
\<close>

type_synonym filemap = "(jsstring \<times> jsstring) list"

fun map_set :: "('k \<times> 'v) list \<Rightarrow> 'k \<Rightarrow> 'v \<Rightarrow> ('k \<times> 'v) list" where
  "map_set [] k v = [(k, v)]"
| "map_set ((k', v') # m) k v = (if k' = k then (k, v) # m else (k', v') # map_set m k v)"

record decoder =
  currentFilename :: "jsstring option"
  currentLines :: "jsstring list"
  files :: filemap

definition finalizeFile :: "decoder \<Rightarrow> decoder" where
  "finalizeFile st =
     (case currentFilename st of
        None \<Rightarrow> st
      | Some f \<Rightarrow>
          if f = [] then st
          else st\<lparr>files := map_set (files st) f (join [LF] (currentLines st))\<rparr>)"

text \<open>One turn of the loop over the lines.\<close>

definition decode_line :: "decoder \<Rightarrow> jsstring \<Rightarrow> decoder" where
  "decode_line st line =
     (case regexp_exec fileNameRegexp line of
        Some captured \<Rightarrow>
          (finalizeFile st)\<lparr>currentFilename := Some (resolve_root captured), currentLines := []\<rparr>
      | None \<Rightarrow>
          (case currentFilename st of
             None \<Rightarrow> st
           | Some f \<Rightarrow> if f = [] then st else st\<lparr>currentLines := currentLines st @ [line]\<rparr>))"

text \<open>The loop and the last \<^verbatim>\<open>finalizeFile\<close>; a line is a marker when the pattern matches in it.\<close>

abbreviation is_marker :: "jsstring \<Rightarrow> bool" where
  "is_marker l \<equiv> regexp_exec fileNameRegexp l \<noteq> None"

definition decode_lines :: "jsstring list \<Rightarrow> filemap" where
  "decode_lines ls =
     files (finalizeFile
       (foldl decode_line \<lparr>currentFilename = None, currentLines = [], files = []\<rparr> ls))"

definition createFileMap :: "jsstring \<Rightarrow> exn + filemap" where
  "createFileMap input =
     (if \<not> regexp_test fileNameRegexp input
      then Inl (CompilerError (JStr (str ''error'')) (JStr (str ''no input files found'')) (JNum 1)
                  JUndefined NoContext)
      else Inr (decode_lines (split_lines input)))"

section \<open>The command builder\<close>

text \<open>
  \<^verbatim>\<open>createCommandBuilder\<close> closes over one array \<^verbatim>\<open>args\<close>; \<^verbatim>\<open>addSubCommand\<close> hands the
  same array to the builder it returns.  The arrays live in a store, an array is named by
  its address, and a builder is the address of the array it closes over, so that two
  handles on one array are visibly aliases.
\<close>

type_synonym store = "jsstring list list"
type_synonym builder = nat

datatype flag_value = Single jsstring | Many "jsstring list"

definition createCommandBuilder :: "builder option \<Rightarrow> store \<Rightarrow> builder \<times> store" where
  "createCommandBuilder parentArgs h =
     (case parentArgs of
        None \<Rightarrow> (length h, h @ [ [str ''bebopc''] ])
      | Some a \<Rightarrow> (a, h))"

definition addFlag :: "builder \<Rightarrow> jsstring \<Rightarrow> flag_value option \<Rightarrow> store \<Rightarrow> builder \<times> store" where
  "addFlag b flag val h =
     (let h1 = h[b := h ! b @ [flag] ];
          h2 = (case val of
                  None \<Rightarrow> h1
                | Some (Many vs) \<Rightarrow> h1[b := h1 ! b @ vs]
                | Some (Single v) \<Rightarrow> h1[b := h1 ! b @ [v] ])
      in (b, h2))"

definition addSubCommand :: "builder \<Rightarrow> jsstring \<Rightarrow> store \<Rightarrow> builder \<times> store" where
  "addSubCommand b subCommand h = createCommandBuilder (Some b) (h[b := h ! b @ [subCommand] ])"

definition build_args :: "builder \<Rightarrow> store \<Rightarrow> jsstring list" where
  "build_args b h = h ! b"

text \<open>A run of \<^verbatim>\<open>addFlag\<close> calls, each on the handle the call before returned.\<close>

fun addFlags :: "builder \<Rightarrow> (jsstring \<times> flag_value option) list \<Rightarrow> store \<Rightarrow> builder \<times> store" where
  "addFlags b [] h = (b, h)"
| "addFlags b ((flag, val) # fs) h = (case addFlag b flag val h of (b', h') \<Rightarrow> addFlags b' fs h')"

text \<open>The tokens one \<^verbatim>\<open>addFlag\<close> call appends.\<close>

fun flag_tokens :: "jsstring \<times> flag_value option \<Rightarrow> jsstring list" where
  "flag_tokens (flag, None) = [flag]"
| "flag_tokens (flag, Some (Single v)) = [flag, v]"
| "flag_tokens (flag, Some (Many vs)) = flag # vs"

section \<open>The sandbox worker\<close>

text \<open>
  \<^verbatim>\<open>runBebopc\<close> of the worker runs the compiler in a WASI sandbox.  The sandbox is outside
  the repository; what the function does with the run is modelled as a function of the
  run's observable result: how \<^verbatim>\<open>wasi.start\<close> ended, the text captured from the two
  streams, and the files that the walk over the virtual file system yields afterwards, in
  the order of the walk.
\<close>

datatype start_result =
    Returned
  | ExitError "int option"
  | Fault jsstring

record sandbox_run =
  outcome :: start_result
  stdout :: jsstring
  stderr :: jsstring
  walk :: filemap

text \<open>
  Modelled from the spec: \<^verbatim>\<open>WorkerResponse\<close> is declared in \<^verbatim>\<open>./types\<close>, which is not among the
  sources; it is the spec's InvocationResult, and the code builds it with these three
  fields.
\<close>

record worker_response =
  exitCode :: int
  stdErr :: jsstring
  stdOut :: jsstring

text \<open>
  The function is declared to return a \<^verbatim>\<open>WorkerResponse\<close>; its \<^verbatim>\<open>catch\<close> branch for a thrown
  value that is not a \<^verbatim>\<open>WASIExitError\<close> returns the string \<^verbatim>\<open>e.toString()\<close> instead.
\<close>

datatype worker_return =
    Response worker_response
  | FaultText jsstring

definition encode_file :: "jsstring \<times> jsstring \<Rightarrow> jsstring" where
  "encode_file pc = str ''// @filename: '' @ fst pc @ [LF] @ snd pc @ [LF, LF]"

text \<open>The stream the worker builds from the files it reports, trimmed.\<close>

definition multiplex :: "filemap \<Rightarrow> jsstring" where
  "multiplex produced = trim (concat (map encode_file produced))"

definition runBebopc :: "filemap \<Rightarrow> jsstring list \<Rightarrow> sandbox_run \<Rightarrow> worker_return" where
  "runBebopc input args run =
     (case outcome run of
        Fault text \<Rightarrow> FaultText text
      | other \<Rightarrow>
          let code = (case other of
                        ExitError c \<Rightarrow> (case c of Some n \<Rightarrow> n | None \<Rightarrow> 127)
                      | _ \<Rightarrow> 0)
          in if code \<noteq> 0
             then Response \<lparr>exitCode = code, stdErr = stderr run, stdOut = stdout run\<rparr>
             else if (str ''build'' \<in> set args \<and> str ''--stdout'' \<notin> set args)
                     \<or> str ''--init'' \<in> set args
             then Response \<lparr>exitCode = code, stdErr = stderr run,
                    stdOut = multiplex (filter (\<lambda>pc. fst pc \<notin> set (map fst input)) (walk run))\<rparr>
             else Response \<lparr>exitCode = code, stdErr = stderr run, stdOut = stdout run\<rparr>)"

section \<open>JSON values\<close>

text \<open>
  The program reads and tests the properties \<^verbatim>\<open>severity\<close>, \<^verbatim>\<open>message\<close>, \<^verbatim>\<open>errorCode\<close>, \<^verbatim>\<open>span\<close>,
  \<^verbatim>\<open>warnings\<close>, \<^verbatim>\<open>errors\<close> and \<^verbatim>\<open>results\<close> only.  None of them is a property of a built-in
  prototype or of an array, so on these names a read and the \<^verbatim>\<open>in\<close> operator see the own
  properties of an object and nothing else.  A read on \<^verbatim>\<open>null\<close> or \<^verbatim>\<open>undefined\<close>, and \<^verbatim>\<open>in\<close> on
  anything that is not an object, throw a \<^verbatim>\<open>TypeError\<close>.
\<close>

definition js_get :: "jsstring \<Rightarrow> jsval \<Rightarrow> native_error + jsval" where
  "js_get key v =
     (case v of
        JUndefined \<Rightarrow> Inl TypeError
      | JNull \<Rightarrow> Inl TypeError
      | JObj kvs \<Rightarrow> Inr (case map_of kvs key of Some x \<Rightarrow> x | None \<Rightarrow> JUndefined)
      | _ \<Rightarrow> Inr JUndefined)"

definition js_in :: "jsstring \<Rightarrow> jsval \<Rightarrow> native_error + bool" where
  "js_in key v =
     (case v of
        JObj kvs \<Rightarrow> Inr (key \<in> set (map fst kvs))
      | JArr _ \<Rightarrow> Inr False
      | _ \<Rightarrow> Inl TypeError)"

text \<open>A property read on a value known to be an object or an array.\<close>

definition field :: "jsstring \<Rightarrow> jsval \<Rightarrow> jsval" where
  "field key v = (case js_get key v of Inr x \<Rightarrow> x | Inl _ \<Rightarrow> JUndefined)"

text \<open>
  \<^verbatim>\<open>JSON.parse\<close> is a built-in of the runtime, not part of the repository.  The functions
  below take it as the parameter \<open>parse\<close>, with \<open>None\<close> for a thrown \<^verbatim>\<open>SyntaxError\<close>, and
  what is proved of them holds for every such function.
  \<open>JSON_parse\<close> is a parser for the JSON grammar that stands in for it on concrete
  inputs.  It keeps a number as the exact value of its literal (the rounding to a double
  is not modelled), and an object as its properties in the order of first appearance, a
  repeated key keeping its last value.
\<close>

type_synonym json_parser = "jsstring \<Rightarrow> jsval option"

definition skip_ws :: "jsstring \<Rightarrow> jsstring" where
  "skip_ws s = dropWhile (\<lambda>c. c = 9 \<or> c = 10 \<or> c = 13 \<or> c = 32) s"

definition is_digit :: "jschar \<Rightarrow> bool" where
  "is_digit c = (48 \<le> c \<and> c \<le> 57)"

definition hex_val :: "jschar \<Rightarrow> nat option" where
  "hex_val c =
     (if 48 \<le> c \<and> c \<le> 57 then Some (c - 48)
      else if 65 \<le> c \<and> c \<le> 70 then Some (c - 55)
      else if 97 \<le> c \<and> c \<le> 102 then Some (c - 87)
      else None)"

definition digits_val :: "jsstring \<Rightarrow> nat" where
  "digits_val ds = foldl (\<lambda>n d. 10 * n + (d - 48)) 0 ds"

fun parse_string_body :: "jsstring \<Rightarrow> jsstring \<Rightarrow> (jsstring \<times> jsstring) option" where
  "parse_string_body acc [] = None"
| "parse_string_body acc [c] = (if c = 34 then Some (acc, []) else None)"
| "parse_string_body acc (c # e # cs) =
     (if c = 34 then Some (acc, e # cs)
      else if c < 32 then None
      else if c \<noteq> 92 then parse_string_body (acc @ [c]) (e # cs)
      else if e = 34 \<or> e = 92 \<or> e = 47 then parse_string_body (acc @ [e]) cs
      else if e = 98 then parse_string_body (acc @ [8]) cs
      else if e = 102 then parse_string_body (acc @ [12]) cs
      else if e = 110 then parse_string_body (acc @ [10]) cs
      else if e = 114 then parse_string_body (acc @ [13]) cs
      else if e = 116 then parse_string_body (acc @ [9]) cs
      else if e = 117 then
        (case map hex_val (take 4 cs) of
           [Some a, Some b, Some c, Some d] \<Rightarrow>
             parse_string_body (acc @ [((a * 16 + b) * 16 + c) * 16 + d]) (drop 4 cs)
         | _ \<Rightarrow> None)
      else None)"

text \<open>
  A number literal: an optional minus sign, the integer part (a single \<^verbatim>\<open>0\<close>, or digits
  that do not start with \<^verbatim>\<open>0\<close>), an optional fraction and an optional exponent.
\<close>

definition number_int :: "jsstring \<Rightarrow> (jsstring \<times> jsstring) option" where
  "number_int s =
     (if take 1 s = [48] then Some ([48], drop 1 s)
      else case takeWhile is_digit s of
        [] \<Rightarrow> None
      | d # ds \<Rightarrow> Some (d # ds, dropWhile is_digit s))"

definition number_frac :: "jsstring \<Rightarrow> (jsstring \<times> jsstring) option" where
  "number_frac s =
     (if take 1 s = [46]
      then (case takeWhile is_digit (drop 1 s) of
              [] \<Rightarrow> None
            | d # ds \<Rightarrow> Some (d # ds, dropWhile is_digit (drop 1 s)))
      else Some ([], s))"

definition number_exp :: "jsstring \<Rightarrow> (int \<times> jsstring) option" where
  "number_exp s =
     (if take 1 s = [101] \<or> take 1 s = [69]
      then (case takeWhile is_digit (if take 1 (drop 1 s) = [45] \<or> take 1 (drop 1 s) = [43]
                                     then drop 2 s else drop 1 s) of
              [] \<Rightarrow> None
            | d # ds \<Rightarrow>
                Some (if take 1 (drop 1 s) = [45] then - int (digits_val (d # ds))
                      else int (digits_val (d # ds)),
                      dropWhile is_digit (if take 1 (drop 1 s) = [45] \<or> take 1 (drop 1 s) = [43]
                                          then drop 2 s else drop 1 s)))
      else Some (0, s))"

definition number_value :: "bool \<Rightarrow> jsstring \<Rightarrow> jsstring \<Rightarrow> int \<Rightarrow> rat" where
  "number_value neg ip fp e =
     (if neg then - 1 else 1) * of_nat (digits_val (ip @ fp))
       * (if int (length fp) \<le> e then 10 ^ nat (e - int (length fp))
          else 1 / 10 ^ nat (int (length fp) - e))"

definition parse_number :: "jsstring \<Rightarrow> (rat \<times> jsstring) option" where
  "parse_number s =
     (case number_int (if take 1 s = [45] then drop 1 s else s) of
        None \<Rightarrow> None
      | Some (ip, s2) \<Rightarrow>
          (case number_frac s2 of
             None \<Rightarrow> None
           | Some (fp, s3) \<Rightarrow>
               (case number_exp s3 of
                  None \<Rightarrow> None
                | Some (e, s4) \<Rightarrow> Some (number_value (take 1 s = [45]) ip fp e, s4))))"

text \<open>
  The three parsers call each other; \<open>fuel\<close> bounds the depth of the calls, and
  \<open>JSON_parse\<close> starts them with more than any input can use up.
\<close>

function parse_value :: "nat \<Rightarrow> jsstring \<Rightarrow> (jsval \<times> jsstring) option"
  and parse_members :: "nat \<Rightarrow> (jsstring \<times> jsval) list \<Rightarrow> jsstring \<Rightarrow> (jsval \<times> jsstring) option"
  and parse_elements :: "nat \<Rightarrow> jsval list \<Rightarrow> jsstring \<Rightarrow> (jsval \<times> jsstring) option"
where
  "parse_value fuel s =
     (if fuel = 0 then None
      else case skip_ws s of
        [] \<Rightarrow> None
      | c # cs \<Rightarrow>
          if c = 123 then
            (if take 1 (skip_ws cs) = [125] then Some (JObj [], drop 1 (skip_ws cs))
             else parse_members (fuel - 1) [] cs)
          else if c = 91 then
            (if take 1 (skip_ws cs) = [93] then Some (JArr [], drop 1 (skip_ws cs))
             else parse_elements (fuel - 1) [] cs)
          else if c = 34 then
            (case parse_string_body [] cs of
               None \<Rightarrow> None
             | Some (t, r) \<Rightarrow> Some (JStr t, r))
          else if take 4 (c # cs) = str ''true'' then Some (JBool True, drop 3 cs)
          else if take 5 (c # cs) = str ''false'' then Some (JBool False, drop 4 cs)
          else if take 4 (c # cs) = str ''null'' then Some (JNull, drop 3 cs)
          else (case parse_number (c # cs) of
                  None \<Rightarrow> None
                | Some (n, r) \<Rightarrow> Some (JNum n, r)))"
| "parse_members fuel acc s =
     (if fuel = 0 then None
      else case skip_ws s of
        [] \<Rightarrow> None
      | q # cs \<Rightarrow>
          if q \<noteq> 34 then None
          else (case parse_string_body [] cs of
                  None \<Rightarrow> None
                | Some (k, r) \<Rightarrow>
                    if take 1 (skip_ws r) \<noteq> [58] then None
                    else (case parse_value (fuel - 1) (drop 1 (skip_ws r)) of
                            None \<Rightarrow> None
                          | Some (v, r') \<Rightarrow>
                              if take 1 (skip_ws r') = [44]
                              then parse_members (fuel - 1) (map_set acc k v) (drop 1 (skip_ws r'))
                              else if take 1 (skip_ws r') = [125]
                              then Some (JObj (map_set acc k v), drop 1 (skip_ws r'))
                              else None)))"
| "parse_elements fuel vs s =
     (if fuel = 0 then None
      else case parse_value (fuel - 1) s of
        None \<Rightarrow> None
      | Some (v, r) \<Rightarrow>
          if take 1 (skip_ws r) = [44]
          then parse_elements (fuel - 1) (vs @ [v]) (drop 1 (skip_ws r))
          else if take 1 (skip_ws r) = [93]
          then Some (JArr (vs @ [v]), drop 1 (skip_ws r))
          else None)"
  by pat_completeness auto
termination
  by (relation "measure (\<lambda>x. case x of Inl a \<Rightarrow> fst a | Inr (Inl b) \<Rightarrow> fst b | Inr (Inr c) \<Rightarrow> fst c)")
    auto

declare parse_value.simps [simp del] parse_members.simps [simp del] parse_elements.simps [simp del]

definition JSON_parse :: json_parser where
  "JSON_parse s =
     (case parse_value (2 * length s + 2) s of
        None \<Rightarrow> None
      | Some (v, r) \<Rightarrow> if skip_ws r = [] then Some v else None)"

section \<open>Diagnostics scraped from standard error\<close>

text \<open>
  \<^verbatim>\<open>stdError.match(/{[\S\s]*?}/g)\<close>: from left to right, each match starts at an opening
  brace and, the star being lazy, ends at the first closing brace after it; the search goes
  on behind the match.  An opening brace with no closing brace behind it starts no match.
\<close>

function brace_matches :: "jsstring \<Rightarrow> jsstring list" where
  "brace_matches s =
     (case dropWhile (\<lambda>c. c \<noteq> 123) s of
        [] \<Rightarrow> []
      | b # r \<Rightarrow>
          if 125 \<in> set r
          then (b # takeWhile (\<lambda>c. c \<noteq> 125) r @ [125])
                 # brace_matches (drop 1 (dropWhile (\<lambda>c. c \<noteq> 125) r))
          else [])"
  by pat_completeness auto
termination
proof (relation "measure length")
  fix s :: jsstring and b r
  assume "dropWhile (\<lambda>c. c \<noteq> 123) s = b # r"
  then have "length r < length s"
    by (metis length_dropWhile_le length_Cons less_Suc_eq_le not_less_eq_eq not_less)
  moreover have "length (drop 1 (dropWhile (\<lambda>c. c \<noteq> 125) r)) \<le> length r"
    using length_dropWhile_le [of "\<lambda>c. c \<noteq> 125" r] by simp
  ultimately show "(drop 1 (dropWhile (\<lambda>c. c \<noteq> 125) r), s) \<in> measure length"
    by simp
qed simp

declare brace_matches.simps [simp del]

definition findErrorEntries :: "json_parser \<Rightarrow> jsstring \<Rightarrow> jsval list" where
  "findErrorEntries parse stdError = List.map_filter parse (brace_matches stdError)"

definition isCompilerException :: "jsval \<Rightarrow> bool" where
  "isCompilerException obj =
     (case obj of
        JObj kvs \<Rightarrow>
          str ''severity'' \<in> set (map fst kvs) \<and> str ''message'' \<in> set (map fst kvs)
          \<and> str ''errorCode'' \<in> set (map fst kvs)
      | _ \<Rightarrow> False)"

text \<open>\<^verbatim>\<open>new CompilerError("error", stdError, exitCode)\<close>\<close>

definition generic_error :: "jsstring \<Rightarrow> int \<Rightarrow> exn" where
  "generic_error stdError code =
     CompilerError (JStr (str ''error'')) (JStr stdError) (JNum (of_int code)) JUndefined NoContext"

text \<open>The \<^verbatim>\<open>CompilerError\<close> made of the fields of a scraped object.\<close>

definition typed_error :: "jsval \<Rightarrow> exn" where
  "typed_error obj =
     CompilerError (field (str ''severity'') obj) (field (str ''message'') obj)
       (field (str ''errorCode'') obj) (field (str ''span'') obj) NoContext"

text \<open>\<^verbatim>\<open>throwCompilerError\<close> always throws; the model returns what it throws.\<close>

definition throwCompilerError :: "json_parser \<Rightarrow> jsstring \<Rightarrow> int \<Rightarrow> exn" where
  "throwCompilerError parse stdError code =
     (let errorEntries = findErrorEntries parse stdError
      in if errorEntries \<noteq> [] \<and> code \<ge> 400 \<and> isCompilerException (last errorEntries)
         then typed_error (last errorEntries)
         else generic_error stdError code)"

definition parseStandardError :: "json_parser \<Rightarrow> jsstring \<Rightarrow> int \<Rightarrow> exn + jsval" where
  "parseStandardError parse stdError code =
     (let errorEntries = findErrorEntries parse stdError
      in if errorEntries = [] then Inl (generic_error stdError code)
         else
           let compilerOutput = hd errorEntries;
               shape =
                 (if code < 400
                  then (case js_in (str ''warnings'') compilerOutput of
                          Inl e \<Rightarrow> Inl e
                        | Inr False \<Rightarrow> Inr False
                        | Inr True \<Rightarrow> js_in (str ''errors'') compilerOutput)
                  else Inr False)
           in case shape of
                Inl e \<Rightarrow> Inl (NativeError e)
              | Inr True \<Rightarrow> Inr compilerOutput
              | Inr False \<Rightarrow>
                  if isCompilerException (last errorEntries)
                  then Inl (typed_error (last errorEntries))
                  else Inl (generic_error stdError code))"

section \<open>The output assembler\<close>

text \<open>
  Modelled from the spec: \<^verbatim>\<open>GeneratorConfig\<close>, \<^verbatim>\<open>GeneratedFile\<close> and \<^verbatim>\<open>CompilerOutput\<close> are declared
  in \<^verbatim>\<open>./types\<close>, which is not among the sources.  A generator config has exactly one alias
  with its body; of the body the assembler reads \<^verbatim>\<open>outFile\<close> alone (the other fields only
  shape the argument vector).  A generated file has a name, a content, the alias of its
  generator and, for some generators, an auxiliary file with a name and a content.
\<close>

record generator_config =
  generatorAlias :: jsstring
  outFile :: jsstring

record generated_file =
  name :: jsstring
  content :: jsstring
  generator :: jsstring
  auxiliaryFile :: "(jsstring \<times> jsstring) option"

text \<open>
  What \<^verbatim>\<open>build\<close> returns: the object parsed from a stream, as it is, or an object the program
  puts together (\<^verbatim>\<open>results\<close> is absent from the one for an empty check run).
\<close>

datatype compiler_output =
    ParsedOutput jsval
  | CompilerOutput (warnings: jsval) (errors: jsval) (results: "generated_file list option")

text \<open>
  \<^verbatim>\<open>extLookupTable[alias]\<close>.  The table is an object literal, so besides its six entries
  the lookup finds the properties every object inherits; such a value is truthy and has
  no \<^verbatim>\<open>auxiliaryExt\<close>.
\<close>

datatype ext_info =
    ExtInfo (ext: jsstring) (auxiliaryExt: "jsstring option")
  | Inherited

definition inherited_properties :: "jsstring list" where
  "inherited_properties =
     [str ''constructor'', str ''__defineGetter__'', str ''__defineSetter__'',
      str ''hasOwnProperty'', str ''__lookupGetter__'', str ''__lookupSetter__'',
      str ''isPrototypeOf'', str ''propertyIsEnumerable'', str ''toString'', str ''valueOf'',
      str ''__proto__'', str ''toLocaleString'']"

definition extLookupTable :: "jsstring \<Rightarrow> ext_info option" where
  "extLookupTable a =
     (if a = str ''cpp'' then Some (ExtInfo (str ''cpp'') (Some (str ''hpp'')))
      else if a = str ''cs'' then Some (ExtInfo (str ''cs'') None)
      else if a = str ''dart'' then Some (ExtInfo (str ''dart'') None)
      else if a = str ''py'' then Some (ExtInfo (str ''py'') None)
      else if a = str ''rust'' then Some (ExtInfo (str ''rs'') None)
      else if a = str ''ts'' then Some (ExtInfo (str ''ts'') None)
      else if a \<in> set inherited_properties then Some Inherited
      else None)"

definition declared_auxiliary :: "ext_info \<Rightarrow> jsstring option" where
  "declared_auxiliary info =
     (case info of
        ExtInfo e (Some a) \<Rightarrow> if a = [] then None else Some a
      | _ \<Rightarrow> None)"

text \<open>\<^verbatim>\<open>resolvedOutFile.match(/\.([^.]+)$/)\<close>: a dot with at least one character, and no dot, behind it.\<close>

definition has_extension :: "jsstring \<Rightarrow> bool" where
  "has_extension p = (DOT \<in> set p \<and> takeWhile (\<lambda>c. c \<noteq> DOT) (rev p) \<noteq> [])"

definition compiler_error :: "string \<Rightarrow> error_context \<Rightarrow> exn" where
  "compiler_error msg ctx = CompilerError (JStr (str ''error'')) (JStr (str msg)) (JNum 1) JUndefined ctx"

text \<open>One turn of the loop over the requested generators.\<close>

definition assemble_file :: "filemap \<Rightarrow> generator_config \<Rightarrow> exn + generated_file" where
  "assemble_file produced config =
     (let resolvedOutFile = resolve_root (outFile config)
      in if \<not> has_extension resolvedOutFile
         then Inl (compiler_error ''unable to determine extension'' NoContext)
         else case extLookupTable (generatorAlias config) of
           None \<Rightarrow> Inl (compiler_error ''unable to lookup extension'' (AliasContext (generatorAlias config)))
         | Some extInfo \<Rightarrow>
             (case find (\<lambda>f. suffix resolvedOutFile f) (map fst produced) of
                None \<Rightarrow> Inl (compiler_error ''unable to find output file'' (OutFileContext resolvedOutFile))
              | Some outFileMatch \<Rightarrow>
                  if outFileMatch = []
                  then Inl (compiler_error ''unable to find output file'' (OutFileContext resolvedOutFile))
                  else
                    let generatedFile =
                          \<lparr>name = outFileMatch,
                           content = (case map_of produced outFileMatch of Some c \<Rightarrow> c | None \<Rightarrow> []),
                           generator = generatorAlias config,
                           auxiliaryFile = None\<rparr>
                    in case declared_auxiliary extInfo of
                         None \<Rightarrow> Inr generatedFile
                       | Some auxExt \<Rightarrow>
                           let outFileDir = dirname resolvedOutFile
                           in (case find (\<lambda>f. suffix (DOT # auxExt) f \<and> dirname f = outFileDir)
                                      (map fst produced) of
                                 None \<Rightarrow>
                                   Inl (compiler_error ''unable to find auxiliary file''
                                          (OutFileContext resolvedOutFile))
                               | Some auxiliaryFileMatch \<Rightarrow>
                                   Inr (generatedFile\<lparr>auxiliaryFile :=
                                     Some (auxiliaryFileMatch,
                                           case map_of produced auxiliaryFileMatch of
                                             Some c \<Rightarrow> c | None \<Rightarrow> [])\<rparr>))))"

text \<open>The loop: the files are collected in the order of the requests, up to the first error.\<close>

fun assemble_files :: "filemap \<Rightarrow> generator_config list \<Rightarrow> exn + generated_file list" where
  "assemble_files produced [] = Inr []"
| "assemble_files produced (config # configs) =
     (case assemble_file produced config of
        Inl e \<Rightarrow> Inl e
      | Inr generatedFile \<Rightarrow>
          (case assemble_files produced configs of
             Inl e \<Rightarrow> Inl e
           | Inr rest \<Rightarrow> Inr (generatedFile # rest)))"

text \<open>
  The \<^verbatim>\<open>try\<close> block on standard error: the whole text goes through \<^verbatim>\<open>JSON.parse\<close>, and the two
  reads on the result throw when it is \<^verbatim>\<open>null\<close>.  Either error is caught and wrapped.
\<close>

definition read_diagnostics :: "json_parser \<Rightarrow> jsstring \<Rightarrow> exn + jsval \<times> jsval" where
  "read_diagnostics parse stdError =
     (if stdError = [] then Inr (JArr [], JArr [])
      else case parse stdError of
        None \<Rightarrow> Inl (compiler_error ''error while parsing standard error'' (CauseContext SyntaxError))
      | Some diagnostics \<Rightarrow>
          (case js_get (str ''warnings'') diagnostics of
             Inl e \<Rightarrow> Inl (compiler_error ''error while parsing standard error'' (CauseContext e))
           | Inr w \<Rightarrow>
               (case js_get (str ''errors'') diagnostics of
                  Inl e \<Rightarrow> Inl (compiler_error ''error while parsing standard error'' (CauseContext e))
                | Inr e \<Rightarrow> Inr (w, e))))"

definition createCompilerOutput ::
  "json_parser \<Rightarrow> filemap \<Rightarrow> generator_config list \<Rightarrow> jsstring \<Rightarrow> exn + compiler_output" where
  "createCompilerOutput parse produced configs stdError =
     (if configs = [] then Inl (compiler_error ''no generators specified'' NoContext)
      else case read_diagnostics parse stdError of
        Inl e \<Rightarrow> Inl e
      | Inr (w, e) \<Rightarrow>
          (case assemble_files produced configs of
             Inl x \<Rightarrow> Inl x
           | Inr generated \<Rightarrow> Inr (CompilerOutput w e (Some generated))))"

section \<open>The build operation\<close>

text \<open>
  Modelled from the spec: \<^verbatim>\<open>BuildOptions\<close> is declared in \<^verbatim>\<open>./types\<close>, which is not among the
  sources.  Of its toggles \<^verbatim>\<open>noEmit\<close> and \<^verbatim>\<open>writeToStdOut\<close> decide how the answer of the worker
  is read; \<^verbatim>\<open>noWarn\<close> only adds a flag to the argument vector.
\<close>

record build_options =
  noEmit :: bool
  writeToStdOut :: bool

text \<open>
  \<^verbatim>\<open>mapToGeneratorConfigArray(bebopConfig)\<close>: the generators of the configuration file, if
  there is a configuration and it has any.
\<close>

definition mapToGeneratorConfigArray :: "generator_config list option option \<Rightarrow> generator_config list" where
  "mapToGeneratorConfigArray config =
     (case config of Some (Some gs) \<Rightarrow> gs | _ \<Rightarrow> [])"

text \<open>
  \<^verbatim>\<open>build\<close>, from the answer of the worker on.  The argument vector it builds before goes to
  the sandbox and plays no part afterwards.  An answer that is a string has no
  \<^verbatim>\<open>exitCode\<close> and no \<^verbatim>\<open>stdErr\<close>; scraping the missing text throws a \<^verbatim>\<open>TypeError\<close>.
\<close>

definition build ::
  "json_parser \<Rightarrow> generator_config list option option \<Rightarrow> generator_config list option \<Rightarrow>
   build_options option \<Rightarrow> worker_return \<Rightarrow> exn + compiler_output" where
  "build parse bebopConfig generators options answer =
     (case answer of
        FaultText _ \<Rightarrow> Inl (NativeError TypeError)
      | Response response \<Rightarrow>
          if exitCode response \<noteq> 0
          then map_sum id ParsedOutput (parseStandardError parse (stdErr response) (exitCode response))
          else if (case options of Some opts \<Rightarrow> noEmit opts | None \<Rightarrow> False)
          then (if stdErr response = [] then Inr (CompilerOutput (JArr []) (JArr []) None)
                else map_sum id ParsedOutput
                       (parseStandardError parse (stdErr response) (exitCode response)))
          else if stdOut response = []
          then Inl (throwCompilerError parse (stdErr response) (exitCode response))
          else if (case options of Some opts \<Rightarrow> writeToStdOut opts | None \<Rightarrow> False)
          then (case parse (stdOut response) of
                  None \<Rightarrow> Inl (NativeError SyntaxError)
                | Some compilerOutput \<Rightarrow>
                    (case js_in (str ''warnings'') compilerOutput of
                       Inl e \<Rightarrow> Inl (NativeError e)
                     | Inr hasWarnings \<Rightarrow>
                         if hasWarnings \<and> js_in (str ''errors'') compilerOutput = Inr True
                            \<and> js_in (str ''results'') compilerOutput = Inr True
                         then Inr (ParsedOutput compilerOutput)
                         else Inl (generic_error (stdOut response) (exitCode response))))
          else case createFileMap (stdOut response) of
                 Inl e \<Rightarrow> Inl e
               | Inr emittedFiles \<Rightarrow>
                   createCompilerOutput parse emittedFiles
                     (case generators of Some gs \<Rightarrow> gs | None \<Rightarrow> mapToGeneratorConfigArray bebopConfig)
                     (stdErr response))"

section \<open>Notions for the pieces scraped from standard error\<close>

text \<open>
  A text is cut into pieces as follows: before each piece comes a gap that holds no opening
  brace; the piece is an opening brace, a body that holds no closing brace, and a closing
  brace; behind the last piece comes a rest in which no opening brace has a closing brace
  behind it.  \<open>scan_of s ps rest\<close> says that the gaps and bodies \<open>ps\<close> and the rest cut the
  text \<open>s\<close> in this way.
\<close>

definition braced :: "jsstring \<Rightarrow> jsstring" where
  "braced b = 123 # b @ [125]"

definition segment :: "jsstring \<times> jsstring \<Rightarrow> jsstring" where
  "segment gb = fst gb @ braced (snd gb)"

definition scan_of :: "jsstring \<Rightarrow> (jsstring \<times> jsstring) list \<Rightarrow> jsstring \<Rightarrow> bool" where
  "scan_of s ps rest =
     (s = concat (map segment ps) @ rest
      \<and> list_all (\<lambda>gb. 123 \<notin> set (fst gb) \<and> 125 \<notin> set (snd gb)) ps
      \<and> 125 \<notin> set (dropWhile (\<lambda>c. c \<noteq> 123) rest))"

section \<open>Notions for the round trip\<close>

text \<open>
  The marker line the worker writes for a path, and the lines of one encoded file: the
  marker line, and the lines of the content with the line feed the worker writes behind it.
\<close>

definition marker_line :: "jsstring \<Rightarrow> jsstring" where
  "marker_line p = str ''// @filename: '' @ p"

definition block_lines :: "jsstring \<times> jsstring \<Rightarrow> jsstring list" where
  "block_lines pc = marker_line (fst pc) # split_lines (snd pc @ [LF])"

text \<open>
  A text with its line ends turned into line feeds: a carriage return is dropped when a line
  feed follows it and when it is the last character; every other character stays.
\<close>

fun unix_newlines :: "jsstring \<Rightarrow> jsstring" where
  "unix_newlines [] = []"
| "unix_newlines (c # cs) =
     (if c = CR \<and> (cs = [] \<or> take 1 cs = [LF]) then unix_newlines cs
      else c # unix_newlines cs)"

text \<open>
  What the round trip asks of an entry: a normalized absolute path without a line
  terminator, and no marker among the lines of the content as the stream holds them.
\<close>

definition plain_entry :: "jsstring \<times> jsstring \<Rightarrow> bool" where
  "plain_entry pc =
     (resolve_root (fst pc) = fst pc \<and> \<not> list_ex is_lt (fst pc)
      \<and> \<not> list_ex (\<lambda>l. regexp_exec fileNameRegexp l \<noteq> None) (split_lines (snd pc @ [LF])))"

text \<open>The stream without its last separator, which \<^verbatim>\<open>trim\<close> removes.\<close>

definition stream_body :: "filemap \<Rightarrow> jsstring \<Rightarrow> jsstring \<Rightarrow> jsstring" where
  "stream_body es p c =
     concat (map encode_file es) @ marker_line p @ (if c = [] then [] else LF # c)"

section \<open>Sample inputs\<close>

text \<open>Two blocks whose marker paths resolve to the same key.\<close>

definition two_blocks_one_key :: jsstring where
  "two_blocks_one_key =
     str ''// @filename: a/../b'' @ LF # str ''x'' @ LF # str ''// @filename: /b'' @ LF # str ''y''"






text \<open>A run of the sandbox that ends in a trap after writing to standard error.\<close>

definition trapped_run :: sandbox_run where
  "trapped_run = \<lparr>outcome = Fault (str ''RuntimeError: unreachable''), stdout = [],
     stderr = str ''panicked'', walk = []\<rparr>"

text \<open>Requests and produced files for the output assembler.\<close>

definition cpp_request :: generator_config where
  "cpp_request = \<lparr>generatorAlias = str ''cpp'', outFile = str ''/out/a.cpp''\<rparr>"

definition cpp_under_prefix :: filemap where
  "cpp_under_prefix = [(str ''/root/out/a.cpp'', str ''x''), (str ''/root/out/a.hpp'', str ''y'')]"

definition ts_request :: generator_config where
  "ts_request = \<lparr>generatorAlias = str ''ts'', outFile = str ''/out/a.ts''\<rparr>"

definition cs_request :: generator_config where
  "cs_request = \<lparr>generatorAlias = str ''cs'', outFile = str ''out/b.cs''\<rparr>"

definition cs_then_ts :: filemap where
  "cs_then_ts = [(str ''/out/b.cs'', str ''B''), (str ''/out/a.ts'', str ''A'')]"

text \<open>Two answers of the worker with exit code 0.\<close>

definition no_output_run :: worker_response where
  "no_output_run = \<lparr>exitCode = 0, stdErr = str ''garbage'', stdOut = []\<rparr>"

definition noisy_run :: worker_response where
  "noisy_run = \<lparr>exitCode = 0, stdErr = str ''not json'',
     stdOut = str ''// @filename: /out/a.ts'' @ LF # str ''A''\<rparr>"

text \<open>Produced files.\<close>

definition two_files :: filemap where
  "two_files = [(str ''/a'', str ''x''), (str ''/b'', str ''y'')]"

definition two_files_crlf :: filemap where
  "two_files_crlf = [(str ''/a'', str ''x'' @ CR # LF # str ''y''), (str ''/b'', str ''z'')]"

definition one_file_crlf :: filemap where
  "one_file_crlf = [(str ''/a'', str ''x'' @ CR # LF # str ''y'')]"

definition one_file_two_line_path :: filemap where
  "one_file_two_line_path = [(str ''/a'' @ LF # str ''b'', str ''x'')]"

definition one_file_trailing_space :: filemap where
  "one_file_trailing_space = [(str ''/a'', str ''x '')]"

section \<open>Evaluation on concrete inputs\<close>

lemmas json_eval = JSON_parse_def str_def skip_ws_def parse_number_def number_int_def number_frac_def
  number_exp_def number_value_def is_digit_def digits_val_def
  parse_value.simps parse_members.simps parse_elements.simps

lemmas regexp_eval = regexp_test_def regexp_exec_def fileNameRegexp_def str_def lit_def lit_ci_def
  is_ws_def is_lt_def prev_after_def

section \<open>Properties of the command builder\<close>

lemma addFlag_eq:
  "b < length h \<Longrightarrow> addFlag b flag val h = (b, h[b := h ! b @ flag_tokens (flag, val)])"
  by (cases val; simp add: addFlag_def Let_def split: flag_value.split)

lemma addFlags_eq:
  "b < length h \<Longrightarrow> addFlags b fs h = (b, h[b := h ! b @ concat (map flag_tokens fs)])"
proof (induction fs arbitrary: h)
  case Nil
  then show ?case by simp
next
  case (Cons f fs)
  obtain flag val where f: "f = (flag, val)" by (cases f)
  from Cons.prems have len: "b < length (h[b := h ! b @ flag_tokens (flag, val)])" by simp
  show ?case
    using Cons.prems by (simp add: f addFlag_eq Cons.IH [OF len])
qed

text \<open>
  C7.  On a fresh builder, \<^verbatim>\<open>addFlag("--config","x")\<close>, \<^verbatim>\<open>addSubCommand("build")\<close>,
  \<^verbatim>\<open>addFlag("--no-emit")\<close> and \<^verbatim>\<open>build()\<close> give
  \<^verbatim>\<open>["bebopc","--config","x","build","--no-emit"]\<close>.  In general the flags added before
  a subcommand stand before its token and the flags added on the builder that
  \<^verbatim>\<open>addSubCommand\<close> returned stand after it, each group in the order of the calls.
\<close>

theorem C7_builder_order:
  "(case createCommandBuilder None h of (b0, h0) \<Rightarrow>
    case addFlag b0 (str ''--config'') (Some (Single (str ''x''))) h0 of (b1, h1) \<Rightarrow>
    case addSubCommand b1 (str ''build'') h1 of (b2, h2) \<Rightarrow>
    case addFlag b2 (str ''--no-emit'') None h2 of (b3, h3) \<Rightarrow>
      build_args b3 h3)
     = [str ''bebopc'', str ''--config'', str ''x'', str ''build'', str ''--no-emit'']
   \<and>
   (case createCommandBuilder None h of (b0, h0) \<Rightarrow>
    case addFlags b0 before h0 of (b1, h1) \<Rightarrow>
    case addSubCommand b1 sub h1 of (b2, h2) \<Rightarrow>
    case addFlags b2 after h2 of (b3, h3) \<Rightarrow>
      build_args b3 h3)
     = [str ''bebopc''] @ concat (map flag_tokens before) @ [sub] @ concat (map flag_tokens after)"
  by (simp add: createCommandBuilder_def addFlag_eq addFlags_eq addSubCommand_def build_args_def
      nth_append)

section \<open>Properties of the decoder\<close>

subsection \<open>Facts about maps\<close>

lemma map_of_map_set: "map_of (map_set m k v) = (map_of m)(k \<mapsto> v)"
  by (induction m) auto

lemma keys_map_set:
  "map fst (map_set m k v) = (if k \<in> set (map fst m) then map fst m else map fst m @ [k])"
  by (induction m) (auto simp: rev_image_eqI)

lemma distinct_map_set: "distinct (map fst m) \<Longrightarrow> distinct (map fst (map_set m k v))"
  by (simp add: keys_map_set)

lemma map_set_fresh: "k \<notin> set (map fst m) \<Longrightarrow> map_set m k v = m @ [(k, v)]"
  by (induction m) auto

subsection \<open>Facts about paths\<close>

lemma split_on_nonempty: "split_on d s \<noteq> []"
  by (induction s) (auto split: list.splits)

lemma split_on_no_sep: "t \<in> set (split_on d s) \<Longrightarrow> d \<notin> set t"
  by (induction s arbitrary: t) (auto split: list.splits if_splits)

lemma split_on_no_sep_id: "d \<notin> set s \<Longrightarrow> split_on d s = [s]"
  by (induction s) auto

lemma split_on_append:
  "d \<notin> set a \<Longrightarrow> split_on d (a @ d # b) = a # split_on d b"
  by (induction a) auto

lemma split_on_join:
  "segs \<noteq> [] \<Longrightarrow> \<forall>s\<in>set segs. d \<notin> set s \<Longrightarrow> split_on d (join [d] segs) = segs"
proof (induction segs)
  case Nil
  then show ?case by simp
next
  case (Cons x xs)
  then show ?case by (cases xs) (simp_all add: split_on_no_sep_id split_on_append)
qed

lemma normalize_segments_good:
  "\<forall>s\<in>set acc. good_segment s \<and> d \<notin> set s \<Longrightarrow> \<forall>s\<in>set ss. d \<notin> set s \<Longrightarrow>
   \<forall>s\<in>set (normalize_segments acc ss). good_segment s \<and> d \<notin> set s"
proof (induction ss arbitrary: acc)
  case Nil
  then show ?case by simp
next
  case (Cons s ss)
  have rest: "\<forall>s\<in>set ss. d \<notin> set s" and s: "d \<notin> set s"
    using Cons.prems(2) by simp_all
  consider (skip) "s = [] \<or> s = [DOT]" | (up) "s = [DOT, DOT]" | (push) "good_segment s"
    by (auto simp: good_segment_def)
  then show ?case
  proof cases
    case skip
    then show ?thesis using Cons.IH [OF Cons.prems(1) rest] by auto
  next
    case up
    have "\<forall>s\<in>set (butlast acc). good_segment s \<and> d \<notin> set s"
      using Cons.prems(1) by (meson in_set_butlastD)
    from Cons.IH [OF this rest] show ?thesis using up by simp
  next
    case push
    have "\<forall>t\<in>set (acc @ [s]). good_segment t \<and> d \<notin> set t"
      using Cons.prems(1) push s by simp
    from Cons.IH [OF this rest] show ?thesis using push by (simp add: good_segment_def)
  qed
qed

lemma resolve_root_normalized: "normalized_abs (resolve_root p)"
proof -
  let ?segs = "normalize_segments [] (split_on SLASH p)"
  have g: "\<forall>s\<in>set ?segs. good_segment s \<and> SLASH \<notin> set s"
    by (rule normalize_segments_good) (auto dest: split_on_no_sep)
  show ?thesis
  proof (cases "?segs = []")
    case True
    then show ?thesis by (simp add: normalized_abs_def resolve_root_def)
  next
    case False
    with g have "split_on SLASH (join [SLASH] ?segs) = ?segs"
      by (simp add: split_on_join)
    with g show ?thesis
      by (auto simp: normalized_abs_def resolve_root_def list_all_iff good_segment_def)
  qed
qed

lemma resolve_root_nonempty: "resolve_root p \<noteq> []"
  by (simp add: resolve_root_def)

subsection \<open>Facts about the decoder\<close>

lemma decode_line_plain:
  "regexp_exec fileNameRegexp l = None \<Longrightarrow> currentFilename st = Some k \<Longrightarrow> k \<noteq> [] \<Longrightarrow>
   decode_line st l = st\<lparr>currentLines := currentLines st @ [l]\<rparr>"
  by (simp add: decode_line_def)

lemma decode_line_skip:
  "regexp_exec fileNameRegexp l = None \<Longrightarrow> currentFilename st = None \<Longrightarrow> decode_line st l = st"
  by (simp add: decode_line_def)

lemma decode_body:
  "\<forall>l\<in>set body. regexp_exec fileNameRegexp l = None \<Longrightarrow> currentFilename st = Some k \<Longrightarrow> k \<noteq> [] \<Longrightarrow>
   foldl decode_line st body = st\<lparr>currentLines := currentLines st @ body\<rparr>"
proof (induction body arbitrary: st)
  case Nil
  then show ?case by simp
next
  case (Cons a body)
  let ?st = "st\<lparr>currentLines := currentLines st @ [a]\<rparr>"
  have a: "decode_line st a = ?st"
    using Cons.prems by (simp add: decode_line_plain)
  have "foldl decode_line ?st body = ?st\<lparr>currentLines := currentLines ?st @ body\<rparr>"
    by (rule Cons.IH) (use Cons.prems in simp_all)
  then show ?case by (simp add: a)
qed

lemma decode_preamble:
  "\<forall>l\<in>set body. regexp_exec fileNameRegexp l = None \<Longrightarrow> currentFilename st = None \<Longrightarrow>
   foldl decode_line st body = st"
proof (induction body)
  case Nil
  then show ?case by simp
next
  case (Cons a body)
  then show ?case by (simp add: decode_line_skip)
qed

lemma decode_lines_no_marker:
  "\<forall>l\<in>set ls. regexp_exec fileNameRegexp l = None \<Longrightarrow> decode_lines ls = []"
  by (simp add: decode_lines_def decode_preamble finalizeFile_def)

lemma files_finalize_marker:
  "files ((finalizeFile st)\<lparr>currentFilename := c, currentLines := l\<rparr>) = files (finalizeFile st)"
  by simp

lemma decode_lines_block:
  assumes "regexp_exec fileNameRegexp mk = Some cap"
    and "\<forall>l\<in>set body. regexp_exec fileNameRegexp l = None"
  shows "decode_lines (ls @ mk # body) = map_set (decode_lines ls) (resolve_root cap) (join [LF] body)"
proof -
  let ?st = "foldl decode_line \<lparr>currentFilename = None, currentLines = [], files = []\<rparr> ls"
  let ?st1 = "(finalizeFile ?st)\<lparr>currentFilename := Some (resolve_root cap), currentLines := []\<rparr>"
  have "foldl decode_line ?st (mk # body) = foldl decode_line ?st1 body"
    using assms(1) by (simp add: decode_line_def)
  also have "\<dots> = ?st1\<lparr>currentLines := currentLines ?st1 @ body\<rparr>"
    by (rule decode_body [OF assms(2), where k = "resolve_root cap"])
      (simp_all add: resolve_root_nonempty)
  finally show ?thesis
    by (simp add: decode_lines_def finalizeFile_def resolve_root_nonempty)
qed

lemma lines_cases:
  obtains (none) "\<forall>l\<in>set ls. regexp_exec fileNameRegexp l = None"
  | (block) ls' mk cap body where "ls = ls' @ mk # body" "regexp_exec fileNameRegexp mk = Some cap"
      "\<forall>l\<in>set body. regexp_exec fileNameRegexp l = None"
proof (cases "\<exists>l\<in>set ls. is_marker l")
  case True
  from split_list_last_prop [OF True] obtain ls' mk body where
    "ls = ls' @ mk # body" "is_marker mk" "\<forall>l\<in>set body. \<not> is_marker l" by blast
  then show ?thesis using block by auto
next
  case False
  then show ?thesis using none by auto
qed

lemma decode_lines_keys:
  "list_all normalized_abs (map fst (decode_lines ls)) \<and> distinct (map fst (decode_lines ls))"
proof (induction "length ls" arbitrary: ls rule: less_induct)
  case less
  show ?case
  proof (cases ls rule: lines_cases)
    case none
    then show ?thesis by (simp add: decode_lines_no_marker)
  next
    case (block ls' mk cap body)
    have "length ls' < length ls" using block(1) by simp
    from less [OF this] show ?thesis
      by (simp add: block decode_lines_block keys_map_set resolve_root_normalized)
  qed
qed

lemma decode_lines_later_blocks:
  "rest = [] \<or> is_marker (hd rest) \<Longrightarrow>
   \<forall>l\<in>set rest. \<forall>c. regexp_exec fileNameRegexp l = Some c \<longrightarrow> resolve_root c \<noteq> k \<Longrightarrow>
   map_of (decode_lines (xs @ rest)) k = map_of (decode_lines xs) k"
proof (induction "length rest" arbitrary: rest rule: less_induct)
  case less
  show ?case
  proof (cases rest rule: lines_cases)
    case none
    with less.prems(1) have "rest = []" by (cases rest) auto
    then show ?thesis by simp
  next
    case (block r' mk cap body)
    have len: "length r' < length rest" using block(1) by simp
    have hd: "r' = [] \<or> is_marker (hd r')"
      using less.prems(1) block(1) by (cases r') auto
    have others: "\<forall>l\<in>set r'. \<forall>c. regexp_exec fileNameRegexp l = Some c \<longrightarrow> resolve_root c \<noteq> k"
      using less.prems(2) block(1) by auto
    have ne: "resolve_root cap \<noteq> k"
      using less.prems(2) block(1,2) by simp
    have "decode_lines (xs @ rest) = map_set (decode_lines (xs @ r')) (resolve_root cap) (join [LF] body)"
      using decode_lines_block [OF block(2,3), of "xs @ r'"] by (simp add: block(1))
    then show ?thesis
      using less.hyps [OF len hd others] ne by (simp add: map_of_map_set)
  qed
qed

lemma decode_lines_last_block:
  assumes "regexp_exec fileNameRegexp mk = Some cap"
    and "\<forall>l\<in>set body. regexp_exec fileNameRegexp l = None"
    and "rest = [] \<or> is_marker (hd rest)"
    and "\<forall>l\<in>set rest. \<forall>c. regexp_exec fileNameRegexp l = Some c \<longrightarrow> resolve_root c \<noteq> resolve_root cap"
  shows "map_of (decode_lines (pre @ mk # body @ rest)) (resolve_root cap) = Some (join [LF] body)"
proof -
  have "map_of (decode_lines ((pre @ mk # body) @ rest)) (resolve_root cap)
      = map_of (decode_lines (pre @ mk # body)) (resolve_root cap)"
    by (rule decode_lines_later_blocks [OF assms(3,4)])
  then show ?thesis
    by (simp add: decode_lines_block [OF assms(1,2)] map_of_map_set)
qed

lemma set_keys_map_set: "set (map fst (map_set m k v)) = insert k (set (map fst m))"
  by (auto simp: keys_map_set)

lemma decode_lines_key_set:
  "set (map fst (decode_lines ls)) =
   resolve_root ` {c. \<exists>l\<in>set ls. regexp_exec fileNameRegexp l = Some c}"
proof (induction "length ls" arbitrary: ls rule: less_induct)
  case less
  show ?case
  proof (cases ls rule: lines_cases)
    case none
    then show ?thesis by (simp add: decode_lines_no_marker)
  next
    case (block ls' mk cap body)
    let ?S = "{c. \<exists>l\<in>set ls'. regexp_exec fileNameRegexp l = Some c}"
    have "length ls' < length ls" using block(1) by simp
    from less [OF this] have IH: "set (map fst (decode_lines ls')) = resolve_root ` ?S" .
    have S: "{c. \<exists>l\<in>set ls. regexp_exec fileNameRegexp l = Some c} = insert cap ?S"
      using block by auto
    have "set (map fst (decode_lines ls)) = insert (resolve_root cap) (set (map fst (decode_lines ls')))"
      unfolding block(1) decode_lines_block [OF block(2,3)] by (rule set_keys_map_set)
    also have "\<dots> = resolve_root ` insert cap ?S"
      unfolding IH by simp
    finally show ?thesis
      unfolding S .
  qed
qed

text \<open>
  C9.  When \<^verbatim>\<open>createFileMap\<close> succeeds, every key of the map is an absolute path in normal
  form, the keys are exactly the captured marker paths resolved against \<^verbatim>\<open>/\<close>, and a key
  holds the content of the last block whose marker resolves to it: the lines of that block
  joined by line feeds, whatever earlier blocks with the same key held.
\<close>

theorem C9_keys_normalized_last_write_wins:
  assumes "createFileMap input = Inr m"
  shows "list_all normalized_abs (map fst m) \<and> distinct (map fst m) \<and>
    set (map fst m) =
      resolve_root ` {c. \<exists>l\<in>set (split_lines input). regexp_exec fileNameRegexp l = Some c} \<and>
    (\<forall>pre mk cap body rest.
       split_lines input = pre @ mk # body @ rest \<and>
       regexp_exec fileNameRegexp mk = Some cap \<and>
       (\<forall>l\<in>set body. regexp_exec fileNameRegexp l = None) \<and>
       (rest = [] \<or> regexp_exec fileNameRegexp (hd rest) \<noteq> None) \<and>
       (\<forall>l\<in>set rest. \<forall>c. regexp_exec fileNameRegexp l = Some c \<longrightarrow> resolve_root c \<noteq> resolve_root cap)
       \<longrightarrow> map_of m (resolve_root cap) = Some (join [LF] body))"
proof -
  from assms have m: "m = decode_lines (split_lines input)"
    by (simp add: createFileMap_def split: if_splits)
  have "\<forall>pre mk cap body rest.
       split_lines input = pre @ mk # body @ rest \<and>
       regexp_exec fileNameRegexp mk = Some cap \<and>
       (\<forall>l\<in>set body. regexp_exec fileNameRegexp l = None) \<and>
       (rest = [] \<or> regexp_exec fileNameRegexp (hd rest) \<noteq> None) \<and>
       (\<forall>l\<in>set rest. \<forall>c. regexp_exec fileNameRegexp l = Some c \<longrightarrow> resolve_root c \<noteq> resolve_root cap)
       \<longrightarrow> map_of m (resolve_root cap) = Some (join [LF] body)"
    unfolding m using decode_lines_last_block by metis
  then show ?thesis
    unfolding m using decode_lines_keys [of "split_lines input"] decode_lines_key_set [of "split_lines input"]
    by blast
qed

lemma exec_marker_up_b:
  "regexp_exec fileNameRegexp (str ''// @filename: a/../b'') = Some (str ''a/../b'')"
  by (simp add: regexp_eval)

lemma exec_marker_b: "regexp_exec fileNameRegexp (str ''// @filename: /b'') = Some (str ''/b'')"
  by (simp add: regexp_eval)

lemma exec_plain_x: "regexp_exec fileNameRegexp (str ''x'') = None"
  by (simp add: regexp_eval)

lemma exec_plain_y: "regexp_exec fileNameRegexp (str ''y'') = None"
  by (simp add: regexp_eval)

lemma resolve_up_b: "resolve_root (str ''a/../b'') = str ''/b''"
  by (simp add: resolve_root_def str_def)

lemma resolve_b: "resolve_root (str ''/b'') = str ''/b''"
  by (simp add: resolve_root_def str_def)

lemma lines_two_blocks:
  "split_lines two_blocks_one_key =
     [str ''// @filename: a/../b'', str ''x'', str ''// @filename: /b'', str ''y'']"
  by (simp add: two_blocks_one_key_def str_def)

lemma test_two_blocks: "regexp_test fileNameRegexp two_blocks_one_key"
  by (simp add: two_blocks_one_key_def regexp_eval)

lemma decode_two_blocks: "createFileMap two_blocks_one_key = Inr [(str ''/b'', str ''y'')]"
proof -
  have 1: "decode_lines ([] @ str ''// @filename: a/../b'' # [str ''x'']) = [(str ''/b'', str ''x'')]"
    by (subst decode_lines_block [OF exec_marker_up_b]) (simp_all add: exec_plain_x resolve_up_b decode_lines_no_marker)
  have "decode_lines ([str ''// @filename: a/../b'', str ''x''] @ str ''// @filename: /b'' # [str ''y''])
      = [(str ''/b'', str ''y'')]"
    apply (subst decode_lines_block [OF exec_marker_b])
    using 1 by (simp_all add: exec_plain_y resolve_b)
  then show ?thesis
    using test_two_blocks by (simp add: createFileMap_def lines_two_blocks)
qed

theorem C9_witness:
  "createFileMap two_blocks_one_key = Inr [(str ''/b'', str ''y'')] \<and>
   normalized_abs (str ''/b'') \<and>
   resolve_root (str ''a/../b'') = resolve_root (str ''/b'') \<and>
   map_of [(str ''/b'', str ''y'')] (resolve_root (str ''/b'')) = Some (str ''y'')"
proof -
  note C9 = C9_keys_normalized_last_write_wins [OF decode_two_blocks]
  note last_wins = C9 [THEN conjunct2, THEN conjunct2, THEN conjunct2, rule_format,
      where pre = "[str ''// @filename: a/../b'', str ''x'']" and mk = "str ''// @filename: /b''"
        and cap = "str ''/b''" and body = "[str ''y'']" and rest = "[]"]
  have "map_of [(str ''/b'', str ''y'')] (resolve_root (str ''/b'')) = Some (join [LF] [str ''y''])"
    by (rule last_wins) (simp add: lines_two_blocks exec_marker_b exec_plain_y)
  moreover have "normalized_abs (str ''/b'')"
    using C9 by simp
  ultimately show ?thesis
    by (simp add: decode_two_blocks resolve_up_b resolve_b)
qed

lemma exec_slashes: "regexp_exec fileNameRegexp (str ''//'') = None"
  by (simp add: regexp_eval)

lemma exec_bare_tag: "regexp_exec fileNameRegexp (str ''@filename: x'') = None"
  by (simp add: regexp_eval)

lemma test_marker_across_lines: "regexp_test fileNameRegexp (str ''//'' @ LF # str ''@filename: x'')"
  by (simp add: regexp_eval)

text \<open>
  C8.  An input none of whose lines matches the marker pattern should make \<^verbatim>\<open>createFileMap\<close>
  throw "no input files found".  The guard tests the pattern on the whole input, where
  \<^verbatim>\<open>\s*\<close> runs across line breaks: on the two lines \<^verbatim>\<open>//\<close> and \<^verbatim>\<open>@filename: x\<close> no line matches,
  the guard lets the input through, and the result is the empty map.
\<close>

theorem C8_marker_across_lines:
  "regexp_exec fileNameRegexp (str ''//'') = None \<and>
   regexp_exec fileNameRegexp (str ''@filename: x'') = None \<and>
   split_lines (str ''//'' @ LF # str ''@filename: x'') = [str ''//'', str ''@filename: x''] \<and>
   createFileMap (str ''//'' @ LF # str ''@filename: x'') = Inr []"
proof -
  have l: "split_lines (str ''//'' @ LF # str ''@filename: x'') = [str ''//'', str ''@filename: x'']"
    by (simp add: str_def)
  have "decode_lines [str ''//'', str ''@filename: x''] = []"
    by (rule decode_lines_no_marker) (simp add: exec_slashes exec_bare_tag)
  then show ?thesis
    using test_marker_across_lines by (simp add: createFileMap_def l exec_slashes exec_bare_tag)
qed

text \<open>The empty input, which is what the worker sends when it has no file to report, does throw.\<close>

lemma createFileMap_empty_input:
  "createFileMap [] =
     Inl (CompilerError (JStr (str ''error'')) (JStr (str ''no input files found'')) (JNum 1)
            JUndefined NoContext)"
  by (simp add: createFileMap_def regexp_eval)

section \<open>Properties of the error classifier and the worker\<close>

subsection \<open>The pieces the scraper finds\<close>




lemma scan_exists: "\<exists>ps tail. scan_of s ps tail"
proof (induction s rule: brace_matches.induct)
  case (1 s)
  show ?case
  proof (cases "dropWhile (\<lambda>c. c \<noteq> 123) s")
    case Nil
    then have "scan_of s [] s" by (simp add: scan_of_def del: dropWhile_eq_Nil_conv)
    then show ?thesis by blast
  next
    case (Cons c0 r)
    then have o: "c0 = 123"
      using hd_dropWhile [of "\<lambda>c. c \<noteq> 123" s] by auto
    show ?thesis
    proof (cases "125 \<in> set r")
      case False
      then have "scan_of s [] s" using Cons o by (simp add: scan_of_def)
      then show ?thesis by blast
    next
      case True
      let ?g = "takeWhile (\<lambda>c. c \<noteq> 123) s"
      let ?b = "takeWhile (\<lambda>c. c \<noteq> 125) r"
      let ?rest = "drop 1 (dropWhile (\<lambda>c. c \<noteq> 125) r)"
      from "1.IH" [OF Cons True] obtain ps tail where IH: "scan_of ?rest ps tail" by blast
      from True have "dropWhile (\<lambda>c. c \<noteq> 125) r \<noteq> []" by simp
      moreover from this have "hd (dropWhile (\<lambda>c. c \<noteq> 125) r) = 125"
        using hd_dropWhile [of "\<lambda>c. c \<noteq> 125" r] by auto
      ultimately have dr: "dropWhile (\<lambda>c. c \<noteq> 125) r = 125 # ?rest"
        by (cases "dropWhile (\<lambda>c. c \<noteq> 125) r") auto
      have "s = ?g @ dropWhile (\<lambda>c. c \<noteq> 123) s" by simp
      also have "\<dots> = ?g @ 123 # ?b @ dropWhile (\<lambda>c. c \<noteq> 125) r"
        by (simp add: Cons o)
      finally have s: "s = ?g @ braced ?b @ ?rest"
        using dr by (simp add: braced_def)
      have g: "123 \<notin> set ?g" by (auto dest: set_takeWhileD)
      have b: "125 \<notin> set ?b" by (auto dest: set_takeWhileD)
      have "scan_of s ((?g, ?b) # ps) tail"
        using IH g b by (subst s) (simp add: scan_of_def segment_def)
      then show ?thesis by blast
    qed
  qed
qed





subsection \<open>The classifier\<close>
















lemma exit_error_without_code:
  "outcome run = ExitError None \<Longrightarrow>
   runBebopc input args run = Response \<lparr>exitCode = 127, stdErr = stderr run, stdOut = stdout run\<rparr>"
  by (simp add: runBebopc_def)

text \<open>
  C3.  A run that ends in a fault without an exit code should give a response with exit code
  127 and the text captured so far; for a \<^verbatim>\<open>WASIExitError\<close> without a code it does.  A thrown
  value of any other kind takes the other branch of the \<^verbatim>\<open>catch\<close>: \<^verbatim>\<open>runBebopc\<close> returns its
  rendering as a string, the captured text is lost, and \<^verbatim>\<open>build\<close>, which reads \<^verbatim>\<open>exitCode\<close> and
  \<^verbatim>\<open>stdErr\<close> off the answer, ends in a \<^verbatim>\<open>TypeError\<close> of the runtime.
\<close>

theorem C3_fault_returns_text:
  "runBebopc [] [str ''bebopc'', str ''build''] trapped_run
     = FaultText (str ''RuntimeError: unreachable'') \<and>
   runBebopc [] [str ''bebopc'', str ''build''] trapped_run
     \<noteq> Response \<lparr>exitCode = 127, stdErr = stderr trapped_run, stdOut = stdout trapped_run\<rparr> \<and>
   build JSON_parse None None None (runBebopc [] [str ''bebopc'', str ''build''] trapped_run)
     = Inl (NativeError TypeError)"
  by (simp add: runBebopc_def trapped_run_def build_def)

section \<open>Properties of the output assembler\<close>

lemma resolve_root_suffix_nonempty: "suffix (resolve_root p) m \<Longrightarrow> m \<noteq> []"
  by (auto simp: resolve_root_def)

lemma assemble_file_result:
  assumes "assemble_file produced c = Inr g"
  shows "generator g = generatorAlias c \<and> name g \<in> set (map fst produced) \<and>
         suffix (resolve_root (outFile c)) (name g) \<and> map_of produced (name g) = Some (content g)"
proof -
  from assms obtain m where m: "find (\<lambda>f. suffix (resolve_root (outFile c)) f) (map fst produced) = Some m"
    and g: "name g = m" "generator g = generatorAlias c"
       "content g = (case map_of produced m of Some x \<Rightarrow> x | None \<Rightarrow> [])"
    by (auto simp: assemble_file_def Let_def split: option.splits if_splits)
  from m have "m \<in> set (map fst produced)" "suffix (resolve_root (outFile c)) m"
    by (auto simp: find_Some_iff)
  moreover from this(1) obtain x where "map_of produced m = Some x"
    by (metis map_of_eq_None_iff not_Some_eq set_map)
  ultimately show ?thesis using g by simp
qed

lemma find_same_keys:
  "set ks' = set ks \<Longrightarrow> find P ks = Some m \<Longrightarrow> \<exists>m'. find P ks' = Some m' \<and> P m'"
  by (cases "find P ks'") (auto simp: find_None_iff find_Some_iff)

lemma assemble_file_same_keys:
  assumes keys: "set (map fst produced') = set (map fst produced)"
    and ok: "assemble_file produced c = Inr g"
  shows "\<exists>g'. assemble_file produced' c = Inr g'"
proof -
  let ?r = "resolve_root (outFile c)"
  from ok obtain info m where ext: "has_extension ?r" and info: "extLookupTable (generatorAlias c) = Some info"
    and m: "find (\<lambda>f. suffix ?r f) (map fst produced) = Some m"
    by (auto simp: assemble_file_def Let_def split: option.splits if_splits)
  from find_same_keys [OF keys m] obtain m' where
    m': "find (\<lambda>f. suffix ?r f) (map fst produced') = Some m'" "suffix ?r m'" by blast
  then have ne: "m' \<noteq> []" by (simp add: resolve_root_suffix_nonempty)
  show ?thesis
  proof (cases "declared_auxiliary info")
    case None
    then show ?thesis
      using ext info m' ne by (simp add: assemble_file_def Let_def)
  next
    case (Some auxExt)
    with ok ext info m obtain a where
      "find (\<lambda>f. suffix (DOT # auxExt) f \<and> dirname f = dirname ?r) (map fst produced) = Some a"
      by (auto simp: assemble_file_def Let_def split: option.splits if_splits)
    from find_same_keys [OF keys this] obtain a' where
      "find (\<lambda>f. suffix (DOT # auxExt) f \<and> dirname f = dirname ?r) (map fst produced') = Some a'"
      by blast
    then show ?thesis
      using Some ext info m' ne by (simp add: assemble_file_def Let_def)
  qed
qed

lemma assemble_files_result:
  "assemble_files produced configs = Inr gs \<Longrightarrow>
   list_all2 (\<lambda>c g. generator g = generatorAlias c \<and> name g \<in> set (map fst produced) \<and>
        suffix (resolve_root (outFile c)) (name g) \<and> map_of produced (name g) = Some (content g))
     configs gs"
proof (induction configs arbitrary: gs)
  case Nil
  then show ?case by simp
next
  case (Cons c configs)
  from Cons.prems obtain g rest where g: "assemble_file produced c = Inr g"
    and rest: "assemble_files produced configs = Inr rest" and gs: "gs = g # rest"
    by (auto split: sum.splits)
  show ?case
    using assemble_file_result [OF g] Cons.IH [OF rest] by (simp add: gs)
qed

lemma assemble_files_same_keys:
  "set (map fst produced') = set (map fst produced) \<Longrightarrow> assemble_files produced configs = Inr gs \<Longrightarrow>
   \<exists>gs'. assemble_files produced' configs = Inr gs'"
proof (induction configs arbitrary: gs)
  case Nil
  then show ?case by simp
next
  case (Cons c configs)
  from Cons.prems(2) obtain g rest where g: "assemble_file produced c = Inr g"
    and rest: "assemble_files produced configs = Inr rest"
    by (auto split: sum.splits)
  from assemble_file_same_keys [OF Cons.prems(1) g] Cons.IH [OF Cons.prems(1) rest]
  show ?case by auto
qed

lemma list_all2_generators:
  "list_all2 (\<lambda>c g. generator g = generatorAlias c \<and> Q c g) configs gs \<Longrightarrow>
   map generator gs = map generatorAlias configs"
  by (induction configs gs rule: list_all2_induct) simp_all

text \<open>
  C6.  A successful \<^verbatim>\<open>createCompilerOutput\<close> returns one generated file for each requested
  generator, in the order of the requests: the file at a position carries the alias of the
  request at that position, and is a produced file whose path ends with the resolved output
  path of that request, with its content.  The order of the produced files plays no part in
  this: on any map with the same keys the operation succeeds as well, and its result is
  again in the order of the requests.
\<close>

theorem C6_results_in_request_order:
  assumes "createCompilerOutput parse produced configs stdError = Inr out"
  shows "\<exists>w e gs. out = CompilerOutput w e (Some gs) \<and> length gs = length configs \<and>
           map generator gs = map generatorAlias configs \<and>
           list_all2 (\<lambda>c g. generator g = generatorAlias c \<and> name g \<in> set (map fst produced) \<and>
               suffix (resolve_root (outFile c)) (name g) \<and> map_of produced (name g) = Some (content g))
             configs gs \<and>
           (\<forall>produced'. set (map fst produced') = set (map fst produced) \<longrightarrow>
              (\<exists>gs'. createCompilerOutput parse produced' configs stdError = Inr (CompilerOutput w e (Some gs'))
                 \<and> map generator gs' = map generatorAlias configs))"
proof -
  from assms obtain w e gs where ne: "configs \<noteq> []"
    and d: "read_diagnostics parse stdError = Inr (w, e)"
    and gs: "assemble_files produced configs = Inr gs" and out: "out = CompilerOutput w e (Some gs)"
    by (auto simp: createCompilerOutput_def split: if_splits sum.splits)
  note r = assemble_files_result [OF gs]
  have "\<exists>gs'. createCompilerOutput parse produced' configs stdError = Inr (CompilerOutput w e (Some gs'))
          \<and> map generator gs' = map generatorAlias configs"
    if keys: "set (map fst produced') = set (map fst produced)" for produced'
  proof -
    from assemble_files_same_keys [OF keys gs] obtain gs' where
      gs': "assemble_files produced' configs = Inr gs'" by blast
    from assemble_files_result [OF gs'] have "map generator gs' = map generatorAlias configs"
      by (rule list_all2_generators)
    then show ?thesis using ne d gs' by (simp add: createCompilerOutput_def)
  qed
  then show ?thesis
    using out r list_all2_generators [OF r] list_all2_lengthD [OF r] by auto
qed

lemma suffix_eval: "suffix xs ys = prefix (rev xs) (rev ys)"
  by (simp add: suffix_to_prefix)

lemmas assemble_eval = assemble_file_def extLookupTable_def declared_auxiliary_def has_extension_def
  resolve_root_def dirname_def compiler_error_def str_def suffix_eval

lemma assemble_cs_then_ts:
  "createCompilerOutput JSON_parse cs_then_ts [ts_request, cs_request] [] =
     Inr (CompilerOutput (JArr []) (JArr [])
       (Some [\<lparr>name = str ''/out/a.ts'', content = str ''A'', generator = str ''ts'', auxiliaryFile = None\<rparr>,
              \<lparr>name = str ''/out/b.cs'', content = str ''B'', generator = str ''cs'', auxiliaryFile = None\<rparr>]))"
  by (simp add: createCompilerOutput_def read_diagnostics_def cs_then_ts_def ts_request_def
      cs_request_def assemble_eval)

theorem C6_witness:
  "createCompilerOutput JSON_parse cs_then_ts [ts_request, cs_request] [] =
     Inr (CompilerOutput (JArr []) (JArr [])
       (Some [\<lparr>name = str ''/out/a.ts'', content = str ''A'', generator = str ''ts'', auxiliaryFile = None\<rparr>,
              \<lparr>name = str ''/out/b.cs'', content = str ''B'', generator = str ''cs'', auxiliaryFile = None\<rparr>]))
   \<and> map generator
        [\<lparr>name = str ''/out/a.ts'', content = str ''A'', generator = str ''ts'', auxiliaryFile = None\<rparr>,
         \<lparr>name = str ''/out/b.cs'', content = str ''B'', generator = str ''cs'', auxiliaryFile = None\<rparr>]
       = map generatorAlias [ts_request, cs_request]
   \<and> map fst cs_then_ts = [str ''/out/b.cs'', str ''/out/a.ts'']"
proof -
  from C6_results_in_request_order [OF assemble_cs_then_ts] obtain w e gs where
    "CompilerOutput (JArr []) (JArr [])
       (Some [\<lparr>name = str ''/out/a.ts'', content = str ''A'', generator = str ''ts'', auxiliaryFile = None\<rparr>,
              \<lparr>name = str ''/out/b.cs'', content = str ''B'', generator = str ''cs'', auxiliaryFile = None\<rparr>])
      = CompilerOutput w e (Some gs)"
    and "map generator gs = map generatorAlias [ts_request, cs_request]"
    by blast
  then have g: "map generator
        [\<lparr>name = str ''/out/a.ts'', content = str ''A'', generator = str ''ts'', auxiliaryFile = None\<rparr>,
         \<lparr>name = str ''/out/b.cs'', content = str ''B'', generator = str ''cs'', auxiliaryFile = None\<rparr>]
       = map generatorAlias [ts_request, cs_request]"
    by simp
  have k: "map fst cs_then_ts = [str ''/out/b.cs'', str ''/out/a.ts'']"
    by (simp add: cs_then_ts_def)
  show ?thesis
    by (rule conjI [OF assemble_cs_then_ts conjI [OF g k] ])
qed

text \<open>
  C4.  The auxiliary file is looked for in the directory of the resolved output path, not in
  the directory of the produced file that matched it.  With the produced files under
  \<^verbatim>\<open>/root/out\<close> and the request for \<^verbatim>\<open>/out/a.cpp\<close>, the primary file is matched by its suffix,
  the header lies beside it, and the operation fails for want of the auxiliary file.
\<close>

theorem C4_auxiliary_under_prefix:
  "find (\<lambda>f. suffix (resolve_root (outFile cpp_request)) f) (map fst cpp_under_prefix)
     = Some (str ''/root/out/a.cpp'') \<and>
   suffix (str ''.hpp'') (str ''/root/out/a.hpp'') \<and>
   dirname (str ''/root/out/a.hpp'') = dirname (str ''/root/out/a.cpp'') \<and>
   createCompilerOutput JSON_parse cpp_under_prefix [cpp_request] []
     = Inl (compiler_error ''unable to find auxiliary file'' (OutFileContext (str ''/out/a.cpp'')))"
  by (simp add: createCompilerOutput_def read_diagnostics_def cpp_under_prefix_def cpp_request_def
      assemble_eval)

section \<open>Properties of the build operation\<close>

text \<open>
  C10.  Take a \<^verbatim>\<open>build\<close> that is not a check run and does not write to standard output, whose
  sandbox exits with code 0, whose standard output is not empty and decodes to a file map,
  and for which at least one generator is requested.  If standard error is not empty, its
  whole text goes through \<^verbatim>\<open>JSON.parse\<close>: when that fails \<^verbatim>\<open>build\<close> throws "error while parsing
  standard error", when it yields a value a successful \<^verbatim>\<open>build\<close> has the \<^verbatim>\<open>warnings\<close> and
  \<^verbatim>\<open>errors\<close> of that value, and the parser is asked about no other text, so that nothing is
  scraped out of standard error.
\<close>

theorem C10_whole_stderr_parsed:
  assumes "exitCode response = 0"
    and "\<not> (case options of Some opts \<Rightarrow> noEmit opts | None \<Rightarrow> False)"
    and "\<not> (case options of Some opts \<Rightarrow> writeToStdOut opts | None \<Rightarrow> False)"
    and "stdOut response \<noteq> []"
    and "createFileMap (stdOut response) = Inr emitted"
    and "(case generators of Some gs \<Rightarrow> gs | None \<Rightarrow> mapToGeneratorConfigArray bebopConfig) \<noteq> []"
    and "stdErr response \<noteq> []"
  shows "(parse (stdErr response) = None \<longrightarrow>
            build parse bebopConfig generators options (Response response)
              = Inl (compiler_error ''error while parsing standard error'' (CauseContext SyntaxError)))
       \<and> (\<forall>d out. parse (stdErr response) = Some d
              \<and> build parse bebopConfig generators options (Response response) = Inr out \<longrightarrow>
            (\<exists>gs. out = CompilerOutput (field (str ''warnings'') d) (field (str ''errors'') d) (Some gs)))
       \<and> (\<forall>parse'. parse' (stdErr response) = parse (stdErr response) \<longrightarrow>
            build parse' bebopConfig generators options (Response response)
              = build parse bebopConfig generators options (Response response))"
proof -
  let ?configs = "case generators of Some gs \<Rightarrow> gs | None \<Rightarrow> mapToGeneratorConfigArray bebopConfig"
  have b: "build p bebopConfig generators options (Response response)
      = createCompilerOutput p emitted ?configs (stdErr response)" for p
    using assms(1-5) by (simp add: build_def)
  have 1: "parse (stdErr response) = None \<longrightarrow>
      createCompilerOutput parse emitted ?configs (stdErr response)
        = Inl (compiler_error ''error while parsing standard error'' (CauseContext SyntaxError))"
    using assms(6,7) by (simp add: createCompilerOutput_def read_diagnostics_def)
  have 2: "\<exists>gs. out = CompilerOutput (field (str ''warnings'') d) (field (str ''errors'') d) (Some gs)"
    if "parse (stdErr response) = Some d"
      and "createCompilerOutput parse emitted ?configs (stdErr response) = Inr out" for d out
    using that assms(6,7)
    by (auto simp: createCompilerOutput_def read_diagnostics_def field_def split: sum.splits)
  have 3: "createCompilerOutput parse' emitted ?configs (stdErr response)
      = createCompilerOutput parse emitted ?configs (stdErr response)"
    if "parse' (stdErr response) = parse (stdErr response)" for parse'
    using that by (simp add: createCompilerOutput_def read_diagnostics_def)
  show ?thesis
    unfolding b using 1 2 3 by blast
qed

lemma decode_noisy_run: "createFileMap (stdOut noisy_run) = Inr [(str ''/out/a.ts'', str ''A'')]"
proof -
  have t: "regexp_test fileNameRegexp (stdOut noisy_run)"
    by (simp add: noisy_run_def regexp_eval)
  have l: "split_lines (stdOut noisy_run) = [] @ str ''// @filename: /out/a.ts'' # [str ''A'']"
    by (simp add: noisy_run_def str_def)
  have m: "regexp_exec fileNameRegexp (str ''// @filename: /out/a.ts'') = Some (str ''/out/a.ts'')"
    by (simp add: regexp_eval)
  have c: "regexp_exec fileNameRegexp (str ''A'') = None"
    by (simp add: regexp_eval)
  have r: "resolve_root (str ''/out/a.ts'') = str ''/out/a.ts''"
    by (simp add: resolve_root_def str_def)
  have "decode_lines ([] @ str ''// @filename: /out/a.ts'' # [str ''A'']) = [(str ''/out/a.ts'', str ''A'')]"
    by (subst decode_lines_block [OF m]) (simp_all add: c r decode_lines_no_marker)
  then show ?thesis
    using t by (simp add: createFileMap_def l del: append_Nil)
qed

lemma parse_not_json: "JSON_parse (str ''not json'') = None"
  by (simp add: json_eval)

theorem C10_witness:
  "build JSON_parse None (Some [ts_request]) None (Response noisy_run)
     = Inl (compiler_error ''error while parsing standard error'' (CauseContext SyntaxError))"
proof -
  have "JSON_parse (stdErr noisy_run) = None"
    by (simp add: noisy_run_def parse_not_json)
  moreover have "exitCode noisy_run = 0" "stdOut noisy_run \<noteq> []" "stdErr noisy_run \<noteq> []"
    by (simp_all add: noisy_run_def str_def)
  ultimately show ?thesis
    using C10_whole_stderr_parsed [where response = noisy_run and options = None
        and generators = "Some [ts_request]" and bebopConfig = None and parse = JSON_parse,
        OF _ _ _ _ decode_noisy_run]
    by simp
qed

lemma matches_garbage: "brace_matches (str ''garbage'') = []"
  unfolding str_def by (subst brace_matches.simps) simp

theorem C10_counterexample:
  "stdErr no_output_run \<noteq> [] \<and>
   JSON_parse (stdErr no_output_run) = None \<and>
   build JSON_parse None (Some [ts_request]) None (Response no_output_run)
     = Inl (generic_error (str ''garbage'') 0) \<and>
   build JSON_parse None (Some [ts_request]) None (Response no_output_run)
     \<noteq> Inl (compiler_error ''error while parsing standard error'' (CauseContext SyntaxError))"
proof -
  have p: "JSON_parse (str ''garbage'') = None"
    by (simp add: json_eval)
  have b: "build JSON_parse None (Some [ts_request]) None (Response no_output_run)
      = Inl (generic_error (str ''garbage'') 0)"
    by (simp add: build_def no_output_run_def throwCompilerError_def findErrorEntries_def
        matches_garbage)
  have "generic_error (str ''garbage'') 0
      \<noteq> compiler_error ''error while parsing standard error'' (CauseContext SyntaxError)"
    by (simp add: generic_error_def compiler_error_def)
  then show ?thesis
    using p b by (simp add: no_output_run_def) (simp add: str_def)
qed

section \<open>Properties of the round trip\<close>

subsection \<open>Lines of a text\<close>

lemma split_lines_nonempty: "split_lines s \<noteq> []"
  by (induction s rule: split_lines.induct) (auto split: list.splits)

lemma split_lines_single: "LF \<notin> set a \<Longrightarrow> CR \<notin> set a \<Longrightarrow> split_lines a = [a]"
  by (induction a) auto

lemma split_lines_LF: "split_lines (LF # t) = [] # split_lines t"
  by simp

lemma split_lines_CRLF: "split_lines (CR # LF # t) = [] # split_lines t"
  by simp

lemma split_lines_other:
  "c \<noteq> LF \<Longrightarrow> \<not> (c = CR \<and> take 1 t = [LF]) \<Longrightarrow> split_lines t = l # ls \<Longrightarrow>
   split_lines (c # t) = (c # l) # ls"
  by simp

lemma char_cases:
  obtains (empty) "a = []" | (lf) cs where "a = LF # cs" | (crlf) cs where "a = CR # LF # cs"
  | (cr_end) "a = [CR]"
  | (other) c cs where "a = c # cs" "c \<noteq> LF" "\<And>t. \<not> (c = CR \<and> take 1 (cs @ LF # t) = [LF])"
      "\<not> (c = CR \<and> take 1 cs = [LF])" "\<not> (c = CR \<and> cs = [])"
proof (cases a)
  case Nil
  then show ?thesis by (rule empty)
next
  case (Cons c cs)
  show ?thesis
  proof (cases "c = LF")
    case True
    then show ?thesis using Cons lf by simp
  next
    case nlf: False
    show ?thesis
    proof (cases "c = CR")
      case False
      then show ?thesis using Cons nlf other by simp
    next
      case True
      show ?thesis
      proof (cases cs)
        case Nil
        then show ?thesis using Cons True cr_end by simp
      next
        case (Cons d ds)
        show ?thesis
        proof (cases "d = LF")
          case True
          then show ?thesis using \<open>a = c # cs\<close> \<open>c = CR\<close> Cons crlf by simp
        next
          case False
          then show ?thesis using \<open>a = c # cs\<close> Cons nlf by (intro other [of c cs]) simp_all
        qed
      qed
    qed
  qed
qed

lemma split_lines_two: "\<exists>l l' ls. split_lines (a @ LF # b) = l # l' # ls"
proof (induction a rule: length_induct)
  case (1 a)
  obtain m ms where b: "split_lines b = m # ms"
    using split_lines_nonempty [of b] by (cases "split_lines b") auto
  have IH: "\<exists>l l' ls. split_lines (ys @ LF # b) = l # l' # ls" if "length ys < length a" for ys
    using "1.IH" that by blast
  show ?case
  proof (cases a rule: char_cases)
    case empty
    then show ?thesis by (simp add: b)
  next
    case (lf cs)
    then obtain l l' ls where "split_lines (cs @ LF # b) = l # l' # ls" using IH [of cs] by auto
    then show ?thesis by (simp add: lf)
  next
    case (crlf cs)
    then obtain l l' ls where "split_lines (cs @ LF # b) = l # l' # ls" using IH [of cs] by auto
    then show ?thesis by (simp add: crlf)
  next
    case cr_end
    then show ?thesis by (simp add: b)
  next
    case (other c cs)
    then obtain l l' ls where two: "split_lines (cs @ LF # b) = l # l' # ls" using IH [of cs] by auto
    have "split_lines (c # cs @ LF # b) = (c # l) # l' # ls"
      by (rule split_lines_other [OF other(2,3) two])
    then show ?thesis by (simp add: other(1))
  qed
qed

lemma split_lines_append_LF:
  "split_lines (a @ LF # b) = butlast (split_lines (a @ [LF])) @ split_lines b"
proof (induction a rule: length_induct)
  case (1 a)
  have hyp: "split_lines (ys @ LF # b) = butlast (split_lines (ys @ [LF])) @ split_lines b"
    if "length ys < length a" for ys
    using "1.IH" that by blast
  show ?case
  proof (cases a rule: char_cases)
    case empty
    then show ?thesis by simp
  next
    case (lf cs)
    then have IH: "split_lines (cs @ LF # b) = butlast (split_lines (cs @ [LF])) @ split_lines b"
      using hyp [of cs] by simp
    show ?thesis
      unfolding lf by (simp add: IH split_lines_nonempty)
  next
    case (crlf cs)
    then have IH: "split_lines (cs @ LF # b) = butlast (split_lines (cs @ [LF])) @ split_lines b"
      using hyp [of cs] by simp
    show ?thesis
      unfolding crlf by (simp add: IH split_lines_nonempty)
  next
    case cr_end
    then show ?thesis by simp
  next
    case (other c cs)
    then have IH: "split_lines (cs @ LF # b) = butlast (split_lines (cs @ [LF])) @ split_lines b"
      using hyp [of cs] by simp
    obtain l l' ls where two: "split_lines (cs @ [LF]) = l # l' # ls"
      using split_lines_two [of cs "[]"] by auto
    have 1: "split_lines (c # cs @ [LF]) = (c # l) # l' # ls"
      by (rule split_lines_other [OF other(2,3) two])
    have "split_lines (cs @ LF # b) = l # butlast (l' # ls) @ split_lines b"
      unfolding IH two by simp
    then have 2: "split_lines (c # cs @ LF # b) = (c # l) # butlast (l' # ls) @ split_lines b"
      by (rule split_lines_other [OF other(2,3)])
    show ?thesis
      unfolding other(1) append_Cons 1 2 by simp
  qed
qed

lemma split_lines_LF_snoc: "split_lines (a @ [LF]) = butlast (split_lines (a @ [LF])) @ [ [] ]"
  using split_lines_append_LF [of a "[]"] by simp

lemma content_lines_nonempty: "butlast (split_lines (a @ [LF])) \<noteq> []"
  using split_lines_two [of a "[]"] by auto

lemma split_lines_no_final_CR:
  "a = [] \<or> last a \<noteq> CR \<Longrightarrow> split_lines (a @ [LF]) = split_lines a @ [ [] ]"
proof (induction a rule: length_induct)
  case (1 a)
  have hyp: "split_lines (ys @ [LF]) = split_lines ys @ [ [] ]"
    if "length ys < length a" and "ys = [] \<or> last ys \<noteq> CR" for ys
    using "1.IH" that by blast
  show ?case
  proof (cases a rule: char_cases)
    case empty
    then show ?thesis by simp
  next
    case (lf cs)
    with "1.prems" have "cs = [] \<or> last cs \<noteq> CR" by (auto split: if_splits)
    then have "split_lines (cs @ [LF]) = split_lines cs @ [ [] ]" using hyp [of cs] lf by simp
    then show ?thesis unfolding lf by simp
  next
    case (crlf cs)
    with "1.prems" have "cs = [] \<or> last cs \<noteq> CR" by (auto split: if_splits)
    then have "split_lines (cs @ [LF]) = split_lines cs @ [ [] ]" using hyp [of cs] crlf by simp
    then show ?thesis unfolding crlf by simp
  next
    case cr_end
    with "1.prems" show ?thesis by simp
  next
    case (other c cs)
    with "1.prems" have "cs = [] \<or> last cs \<noteq> CR" by (auto split: if_splits)
    then have IH: "split_lines (cs @ [LF]) = split_lines cs @ [ [] ]" using hyp [of cs] other by simp
    obtain l ls where l: "split_lines cs = l # ls"
      using split_lines_nonempty [of cs] by (cases "split_lines cs") auto
    have 1: "split_lines (c # cs) = (c # l) # ls"
      by (rule split_lines_other [OF other(2,4) l])
    have "split_lines (cs @ [LF]) = l # ls @ [ [] ]"
      unfolding IH l by simp
    then have 2: "split_lines (c # cs @ [LF]) = (c # l) # ls @ [ [] ]"
      by (rule split_lines_other [OF other(2,3)])
    show ?thesis
      unfolding other(1) append_Cons 1 2 by simp
  qed
qed

lemma join_Cons_Cons: "join s ((c # l) # ls) = c # join s (l # ls)"
  by (cases ls) simp_all

lemma join_Nil_Cons: "ls \<noteq> [] \<Longrightarrow> join s ([] # ls) = s @ join s ls"
  by (cases ls) simp_all

lemma join_snoc: "xs \<noteq> [] \<Longrightarrow> join s (xs @ [y]) = join s xs @ s @ y"
  by (induction s xs rule: join.induct) simp_all

lemma join_content_lines: "join [LF] (butlast (split_lines (c @ [LF]))) = unix_newlines c"
proof (induction c rule: length_induct)
  case (1 a)
  have hyp: "join [LF] (butlast (split_lines (ys @ [LF]))) = unix_newlines ys"
    if "length ys < length a" for ys
    using "1.IH" that by blast
  show ?case
  proof (cases a rule: char_cases)
    case empty
    then show ?thesis by simp
  next
    case (lf cs)
    then have IH: "join [LF] (butlast (split_lines (cs @ [LF]))) = unix_newlines cs"
      using hyp [of cs] by simp
    have "butlast (split_lines (LF # cs @ [LF])) = [] # butlast (split_lines (cs @ [LF]))"
      by (simp add: split_lines_nonempty)
    then show ?thesis
      unfolding lf append_Cons by (simp add: join_Nil_Cons content_lines_nonempty IH)
  next
    case (crlf cs)
    then have IH: "join [LF] (butlast (split_lines (cs @ [LF]))) = unix_newlines cs"
      using hyp [of cs] by simp
    have "butlast (split_lines (CR # LF # cs @ [LF])) = [] # butlast (split_lines (cs @ [LF]))"
      by (simp add: split_lines_nonempty)
    then show ?thesis
      unfolding crlf append_Cons by (simp add: join_Nil_Cons content_lines_nonempty IH)
  next
    case cr_end
    then show ?thesis by simp
  next
    case (other c cs)
    then have IH: "join [LF] (butlast (split_lines (cs @ [LF]))) = unix_newlines cs"
      using hyp [of cs] by simp
    obtain l l' ls where two: "split_lines (cs @ [LF]) = l # l' # ls"
      using split_lines_two [of cs "[]"] by auto
    have 1: "split_lines (c # cs @ [LF]) = (c # l) # l' # ls"
      by (rule split_lines_other [OF other(2,3) two])
    have u: "unix_newlines (c # cs) = c # unix_newlines cs"
      using other(4,5) by auto
    have "join [LF] (butlast ((c # l) # l' # ls)) = c # join [LF] (butlast (l # l' # ls))"
      by (simp add: join_Cons_Cons)
    then show ?thesis
      unfolding other(1) append_Cons 1 u using IH by (simp add: two)
  qed
qed

lemma join_block: "join [LF] (split_lines (c @ [LF])) = unix_newlines c @ [LF]"
  by (subst split_lines_LF_snoc) (simp add: join_snoc content_lines_nonempty join_content_lines)

lemma join_last_block:
  "c = [] \<or> last c \<noteq> CR \<Longrightarrow> join [LF] (split_lines c) = unix_newlines c"
  using join_content_lines [of c] by (simp add: split_lines_no_final_CR)

lemma unix_newlines_plain: "CR \<notin> set c \<Longrightarrow> unix_newlines c = c"
  by (induction c) simp_all

subsection \<open>The marker pattern on a marker line\<close>

lemma first_some_hit: "f 0 = Some x \<Longrightarrow> first_some (map f [0..<Suc n]) = Some x"
  by (simp add: upt_conv_Cons del: upt_Suc)

lemma group_to_end_of_line:
  assumes "\<not> is_lt c"
  shows "rx_match [Group_Plus (\<lambda>c. \<not> is_lt c), Eol] prev (c # s) cap
           = Some (takeWhile (\<lambda>c. \<not> is_lt c) (c # s))"
proof -
  let ?q = "\<lambda>c. \<not> is_lt c"
  let ?n = "length (takeWhile ?q s)"
  have eol: "(case dropWhile ?q s of [] \<Rightarrow> True | c # _ \<Rightarrow> is_lt c)"
  proof (cases "dropWhile ?q s")
    case Nil
    then show ?thesis by (simp only: list.case)
  next
    case (Cons a l)
    have "dropWhile ?q s \<noteq> []" unfolding Cons by simp
    then have "\<not> ?q (hd (dropWhile ?q s))" by (rule hd_dropWhile)
    then show ?thesis unfolding Cons by simp
  qed
  have "rev [1..<Suc (Suc ?n)] = Suc ?n # rev [1..<Suc ?n]"
    by simp
  moreover have "drop ?n s = dropWhile ?q s" "take ?n s = takeWhile ?q s"
    by (simp_all add: dropWhile_eq_drop [symmetric] takeWhile_eq_take [symmetric])
  ultimately show ?thesis
    using assms eol by (simp del: upt_Suc)
qed

lemma marker_line_match:
  "rx_match fileNameRegexp None (marker_line (SLASH # p) @ rest) []
     = Some (takeWhile (\<lambda>c. \<not> is_lt c) (SLASH # p @ rest))"
proof -
  have g: "rx_match [Group_Plus (\<lambda>c. \<not> is_lt c), Eol] prev (SLASH # p @ rest) cap
      = Some (takeWhile (\<lambda>c. \<not> is_lt c) (SLASH # p @ rest))" for prev cap
    by (rule group_to_end_of_line) (simp add: is_lt_def)
  show ?thesis
    by (simp add: marker_line_def fileNameRegexp_def str_def lit_def lit_ci_def is_ws_def
        prev_after_def g del: rx_match.simps(6))
qed

lemma exec_marker_line:
  "\<forall>x\<in>set p. \<not> is_lt x \<Longrightarrow> regexp_exec fileNameRegexp (marker_line (SLASH # p)) = Some (SLASH # p)"
  unfolding regexp_exec_def
  by (rule first_some_hit)
    (use marker_line_match [of p "[]"] in \<open>simp add: prev_after_def is_lt_def\<close>)

lemma test_marker_line: "regexp_test fileNameRegexp (marker_line (SLASH # p) @ rest)"
proof -
  have "regexp_exec fileNameRegexp (marker_line (SLASH # p) @ rest)
      = Some (takeWhile (\<lambda>c. \<not> is_lt c) (SLASH # p @ rest))"
    unfolding regexp_exec_def
    by (rule first_some_hit) (simp add: prev_after_def marker_line_match del: takeWhile.simps)
  then show ?thesis by (simp add: regexp_test_def)
qed

lemma exec_empty_line: "regexp_exec fileNameRegexp [] = None"
  by (simp add: regexp_eval)

subsection \<open>The stream of the worker, line by line\<close>

lemma trim_trailing:
  assumes "a \<noteq> []" and "\<not> is_ws (hd a)" and "\<not> is_ws (last a)" and "\<forall>x\<in>set b. is_ws x"
  shows "trim (a @ b) = a"
proof -
  from assms(1,2) have front: "dropWhile is_ws (a @ b) = a @ b"
    by (cases a) simp_all
  have "dropWhile is_ws (rev b @ rev a) = dropWhile is_ws (rev a)"
    by (rule dropWhile_append2) (use assms(4) in simp)
  also have "\<dots> = rev a"
    using assms(1,3) by (cases a rule: rev_cases) simp_all
  finally show ?thesis
    by (simp add: trim_def front)
qed

lemma encode_file_marker: "encode_file (p, c) = marker_line p @ LF # c @ [LF, LF]"
  by (simp add: encode_file_def marker_line_def)

lemma marker_line_no_break:
  "\<forall>x\<in>set p. \<not> is_lt x \<Longrightarrow> LF \<notin> set (marker_line p) \<and> CR \<notin> set (marker_line p)"
  by (auto simp: marker_line_def str_def is_lt_def)

lemma split_marker_line:
  "\<forall>x\<in>set p. \<not> is_lt x \<Longrightarrow> split_lines (marker_line p) = [marker_line p]"
  by (simp add: split_lines_single marker_line_no_break)

lemma split_marker_line_append:
  assumes "\<forall>x\<in>set p. \<not> is_lt x"
  shows "split_lines (marker_line p @ LF # t) = marker_line p # split_lines t"
proof -
  have "marker_line p = [] \<or> last (marker_line p) \<noteq> CR"
    using marker_line_no_break [OF assms] by (metis last_in_set)
  then have 1: "split_lines (marker_line p @ [LF]) = [marker_line p, [] ]"
    by (simp add: split_lines_no_final_CR split_marker_line [OF assms])
  have "split_lines (marker_line p @ LF # t)
      = butlast (split_lines (marker_line p @ [LF])) @ split_lines t"
    by (rule split_lines_append_LF)
  then show ?thesis
    unfolding 1 by simp
qed

lemma split_encode_file:
  assumes "\<forall>x\<in>set p. \<not> is_lt x"
  shows "split_lines (encode_file (p, c) @ rest) = block_lines (p, c) @ split_lines rest"
proof -
  have "split_lines (c @ LF # LF # rest) = butlast (split_lines (c @ [LF])) @ [] # split_lines rest"
    by (subst split_lines_append_LF) simp
  also have "\<dots> = (butlast (split_lines (c @ [LF])) @ [ [] ]) @ split_lines rest"
    by simp
  also have "\<dots> = split_lines (c @ [LF]) @ split_lines rest"
    by (simp only: split_lines_LF_snoc [symmetric])
  finally show ?thesis
    using split_marker_line_append [OF assms, of "c @ LF # LF # rest"]
    by (simp add: encode_file_marker block_lines_def)
qed

lemma plain_entryD:
  assumes "plain_entry (p, c)"
  shows "resolve_root p = p" and "\<forall>x\<in>set p. \<not> is_lt x"
    and "\<forall>l\<in>set (split_lines (c @ [LF])). regexp_exec fileNameRegexp l = None"
    and "c = [] \<or> last c \<noteq> CR \<Longrightarrow> \<forall>l\<in>set (split_lines c). regexp_exec fileNameRegexp l = None"
    and "\<exists>p'. p = SLASH # p' \<and> (\<forall>x\<in>set p'. \<not> is_lt x)"
proof -
  show r: "resolve_root p = p" and l: "\<forall>x\<in>set p. \<not> is_lt x"
    and m: "\<forall>l\<in>set (split_lines (c @ [LF])). regexp_exec fileNameRegexp l = None"
    using assms by (auto simp: plain_entry_def list_ex_iff)
  show "\<forall>l\<in>set (split_lines c). regexp_exec fileNameRegexp l = None" if "c = [] \<or> last c \<noteq> CR"
    using m split_lines_no_final_CR [OF that] by simp
  from r obtain p' where "p = SLASH # p'"
    by (cases p) (auto simp: resolve_root_def)
  with l show "\<exists>p'. p = SLASH # p' \<and> (\<forall>x\<in>set p'. \<not> is_lt x)" by auto
qed

lemma exec_plain_marker: "plain_entry (p, c) \<Longrightarrow> regexp_exec fileNameRegexp (marker_line p) = Some p"
  using plain_entryD(5) [of p c] exec_marker_line by auto

lemma split_concat_encode:
  "\<forall>pc\<in>set es. plain_entry pc \<Longrightarrow>
   split_lines (concat (map encode_file es) @ rest) = concat (map block_lines es) @ split_lines rest"
proof (induction es)
  case Nil
  then show ?case by simp
next
  case (Cons pc es)
  obtain p c where pc: "pc = (p, c)" by (cases pc)
  from Cons.prems have "plain_entry (p, c)" by (simp add: pc)
  note d = plain_entryD [OF this]
  have "split_lines (encode_file (p, c) @ (concat (map encode_file es) @ rest))
      = block_lines (p, c) @ split_lines (concat (map encode_file es) @ rest)"
    by (rule split_encode_file [OF d(2)])
  then show ?case
    using Cons by (simp add: pc)
qed

lemma decode_blocks:
  "distinct (map fst es) \<Longrightarrow> \<forall>pc\<in>set es. plain_entry pc \<Longrightarrow>
   decode_lines (concat (map block_lines es)) = map (\<lambda>pc. (fst pc, unix_newlines (snd pc) @ [LF])) es"
proof (induction es rule: rev_induct)
  case Nil
  then show ?case by (simp add: decode_lines_no_marker)
next
  case (snoc pc es)
  obtain p c where pc: "pc = (p, c)" by (cases pc)
  from snoc.prems have plain: "plain_entry (p, c)" and fresh: "p \<notin> set (map fst es)"
    and IH: "decode_lines (concat (map block_lines es))
               = map (\<lambda>pc. (fst pc, unix_newlines (snd pc) @ [LF])) es"
    using snoc.IH by (simp_all add: pc)
  note d = plain_entryD [OF plain]
  have block: "block_lines (p, c) = marker_line p # split_lines (c @ [LF])"
    by (simp add: block_lines_def)
  have "decode_lines (concat (map block_lines es) @ marker_line p # split_lines (c @ [LF]))
      = map_set (decode_lines (concat (map block_lines es))) (resolve_root p)
          (join [LF] (split_lines (c @ [LF])))"
    by (rule decode_lines_block [OF exec_plain_marker [OF plain] d(3)])
  also have "\<dots> = map (\<lambda>pc. (fst pc, unix_newlines (snd pc) @ [LF])) es @ [(p, unix_newlines c @ [LF])]"
    using fresh by (simp add: IH d(1) join_block map_set_fresh comp_def)
  finally show ?case
    using block by (simp add: pc)
qed

lemma stream_body_starts_with_marker:
  assumes "\<forall>pc\<in>set es. plain_entry pc" and "plain_entry (p, c)"
  shows "\<exists>q rest. stream_body es p c = marker_line (SLASH # q) @ rest"
proof (cases es)
  case Nil
  from plain_entryD(5) [OF assms(2)] obtain p' where "p = SLASH # p'" by blast
  then show ?thesis by (auto simp: stream_body_def Nil)
next
  case (Cons e es')
  obtain p1 c1 where e: "e = (p1, c1)" by (cases e)
  with assms(1) Cons have "plain_entry (p1, c1)" by simp
  from plain_entryD(5) [OF this] obtain q where "p1 = SLASH # q" by blast
  then show ?thesis
    by (auto simp: stream_body_def Cons e encode_file_marker)
qed

lemma multiplex_stream_body:
  assumes "\<forall>pc\<in>set es. plain_entry pc" and "plain_entry (p, c)"
    and "c \<noteq> [] \<longrightarrow> \<not> is_ws (last c)" and "c = [] \<longrightarrow> \<not> is_ws (last p)"
  shows "multiplex (es @ [(p, c)]) = stream_body es p c"
proof -
  from stream_body_starts_with_marker [OF assms(1,2)] obtain q rest where
    st: "stream_body es p c = marker_line (SLASH # q) @ rest" by blast
  then have hd: "stream_body es p c \<noteq> []" "\<not> is_ws (hd (stream_body es p c))"
    by (simp_all add: marker_line_def str_def is_ws_def)
  from plain_entryD(5) [OF assms(2)] have pne: "p \<noteq> []" by auto
  have last: "\<not> is_ws (last (stream_body es p c))"
    using assms(3,4) pne by (simp add: stream_body_def marker_line_def)
  have "concat (map encode_file (es @ [(p, c)]))
      = stream_body es p c @ (if c = [] then [LF, LF, LF] else [LF, LF])"
    by (simp add: stream_body_def encode_file_marker)
  moreover have "\<forall>x\<in>set (if c = [] then [LF, LF, LF] else [LF, LF]). is_ws x"
    by (simp add: is_ws_def)
  ultimately show ?thesis
    unfolding multiplex_def using trim_trailing [OF hd last] by simp
qed

lemma decode_stream_body:
  assumes "distinct (map fst (es @ [(p, c)]))" and "\<forall>pc\<in>set es. plain_entry pc" and "plain_entry (p, c)"
    and "c = [] \<or> last c \<noteq> CR"
  shows "createFileMap (stream_body es p c)
           = Inr (map (\<lambda>pc. (fst pc, unix_newlines (snd pc) @ [LF])) es @ [(p, unix_newlines c)])"
proof -
  note d = plain_entryD [OF assms(3)]
  let ?body = "if c = [] then [] else split_lines c"
  from stream_body_starts_with_marker [OF assms(2,3)] have test: "regexp_test fileNameRegexp (stream_body es p c)"
    using test_marker_line by auto
  have tail: "split_lines (marker_line p @ (if c = [] then [] else LF # c)) = marker_line p # ?body"
    using d(2) by (simp add: split_marker_line split_marker_line_append)
  have lines: "split_lines (stream_body es p c) = concat (map block_lines es) @ marker_line p # ?body"
    unfolding stream_body_def using split_concat_encode [OF assms(2)] tail by simp
  have body: "\<forall>l\<in>set ?body. regexp_exec fileNameRegexp l = None"
    using d(4) [OF assms(4)] by simp
  have content: "join [LF] ?body = unix_newlines c"
    using join_last_block [OF assms(4)] by simp
  have fresh: "p \<notin> set (map fst (map (\<lambda>pc. (fst pc, unix_newlines (snd pc) @ [LF])) es))"
    using assms(1) by (simp add: comp_def)
  have "decode_lines (concat (map block_lines es) @ marker_line p # ?body)
      = map_set (decode_lines (concat (map block_lines es))) (resolve_root p) (join [LF] ?body)"
    by (rule decode_lines_block [OF exec_plain_marker [OF assms(3)] body])
  also have "\<dots> = map (\<lambda>pc. (fst pc, unix_newlines (snd pc) @ [LF])) es @ [(p, unix_newlines c)]"
    using assms(1,2) fresh by (simp add: decode_blocks d(1) content map_set_fresh)
  finally show ?thesis
    using test by (simp add: createFileMap_def lines)
qed

lemma round_trip_plain:
  assumes "distinct (map fst (es @ [(p, c)]))" and "\<forall>pc\<in>set es. plain_entry pc" and "plain_entry (p, c)"
    and "c \<noteq> [] \<longrightarrow> \<not> is_ws (last c)" and "c = [] \<longrightarrow> \<not> is_ws (last p)"
  shows "createFileMap (multiplex (es @ [(p, c)]))
           = Inr (map (\<lambda>pc. (fst pc, unix_newlines (snd pc) @ [LF])) es @ [(p, unix_newlines c)])"
proof -
  have "c = [] \<or> last c \<noteq> CR"
    using assms(4) by (auto simp: is_ws_def)
  then have "createFileMap (stream_body es p c)
      = Inr (map (\<lambda>pc. (fst pc, unix_newlines (snd pc) @ [LF])) es @ [(p, unix_newlines c)])"
    by (rule decode_stream_body [OF assms(1,2,3)])
  then show ?thesis
    by (simp only: multiplex_stream_body [OF assms(2,3,4,5)])
qed

text \<open>
  C1.  Take the files the worker reports, at least one, each with a normalized absolute path
  free of line terminators, the paths distinct, no line of a content (read with the line
  feed the worker writes behind it) matching the marker pattern, and the text of the last
  file (its content, or its path when the content is empty) not ending in white space.
  Decoding their multiplex encoding gives the same paths in the same order.  Every content
  comes back with its line ends turned into line feeds: a carriage return before a line feed
  is dropped, and so is one at the end of the content; a content without such a carriage
  return comes back as it was.  Every file but the last has one line feed added behind its
  content, which is the blank separator line that the decoder counts as part of the block.
\<close>

theorem C1_round_trip_up_to_line_ends:
  assumes "es \<noteq> []" and "distinct (map fst es)"
    and "\<forall>(p, c)\<in>set es. resolve_root p = p \<and> (\<forall>x\<in>set p. \<not> is_lt x)
           \<and> (\<forall>l\<in>set (split_lines (c @ [LF])). regexp_exec fileNameRegexp l = None)"
    and "snd (last es) \<noteq> [] \<longrightarrow> \<not> is_ws (last (snd (last es)))"
    and "snd (last es) = [] \<longrightarrow> \<not> is_ws (last (fst (last es)))"
  shows "createFileMap (multiplex es)
           = Inr (map (\<lambda>(p, c). (p, unix_newlines c @ [LF])) (butlast es)
                  @ [(fst (last es), unix_newlines (snd (last es)))])
         \<and> (\<forall>(p, c)\<in>set es. CR \<notin> set c \<longrightarrow> unix_newlines c = c)"
proof -
  from assms(1) obtain es' p c where es: "es = es' @ [(p, c)]"
    by (cases es rule: rev_cases) auto
  have plain: "plain_entry pc" if "pc \<in> set es" for pc
    using assms(3) that by (cases pc) (auto simp: plain_entry_def list_ex_iff)
  then have front: "\<forall>pc\<in>set es'. plain_entry pc" and final: "plain_entry (p, c)"
    by (simp_all add: es)
  have "createFileMap (multiplex (es' @ [(p, c)]))
      = Inr (map (\<lambda>pc. (fst pc, unix_newlines (snd pc) @ [LF])) es' @ [(p, unix_newlines c)])"
    using assms(2,4,5) by (intro round_trip_plain front final) (simp_all add: es)
  then show ?thesis
    by (simp add: es case_prod_beta unix_newlines_plain)
qed

theorem C1_witness:
  "createFileMap (multiplex two_files_crlf)
     = Inr [(str ''/a'', str ''x'' @ LF # str ''y'' @ [LF]), (str ''/b'', str ''z'')]"
proof -
  have r: "resolve_root (str ''/a'') = str ''/a''" "resolve_root (str ''/b'') = str ''/b''"
    by (simp_all add: resolve_root_def str_def)
  have l: "split_lines (str ''x'' @ CR # LF # str ''y'' @ [LF]) = [str ''x'', str ''y'', [] ]"
    "split_lines (str ''z'' @ [LF]) = [str ''z'', [] ]"
    by (simp_all add: str_def)
  have lt: "\<forall>x\<in>set (str ''/a''). \<not> is_lt x" "\<forall>x\<in>set (str ''/b''). \<not> is_lt x"
    by (simp_all add: str_def is_lt_def)
  have z: "regexp_exec fileNameRegexp (str ''z'') = None"
    by (simp add: regexp_eval)
  have ws: "\<not> is_ws (last (str ''z''))" "str ''z'' \<noteq> []" "str ''/a'' \<noteq> str ''/b''"
    by (simp_all add: str_def is_ws_def)
  have u: "unix_newlines (str ''x'' @ CR # LF # str ''y'') = str ''x'' @ LF # str ''y''"
    "unix_newlines (str ''z'') = str ''z''"
    by (simp_all add: str_def)
  show ?thesis
    using C1_round_trip_up_to_line_ends [of two_files_crlf]
    by (simp add: two_files_crlf_def r l lt ws u z exec_plain_x exec_plain_y exec_empty_line)
qed

theorem C1_counterexample:
  "list_all (\<lambda>m. list_all (\<lambda>k. resolve_root k = k \<and> regexp_exec fileNameRegexp k = None) (map fst m)
                \<and> list_all (\<lambda>c. regexp_exec fileNameRegexp c = None) (map snd m))
     [two_files, one_file_crlf, one_file_two_line_path, one_file_trailing_space, [] ] \<and>
   createFileMap (multiplex two_files) = Inr [(str ''/a'', str ''x'' @ [LF]), (str ''/b'', str ''y'')] \<and>
   createFileMap (multiplex two_files) \<noteq> Inr two_files \<and>
   createFileMap (multiplex one_file_crlf) = Inr [(str ''/a'', str ''x'' @ LF # str ''y'')] \<and>
   createFileMap (multiplex one_file_crlf) \<noteq> Inr one_file_crlf \<and>
   createFileMap (multiplex one_file_two_line_path) = Inr [(str ''/a'', str ''b'' @ LF # str ''x'')] \<and>
   createFileMap (multiplex one_file_two_line_path) \<noteq> Inr one_file_two_line_path \<and>
   createFileMap (multiplex one_file_trailing_space) = Inr [(str ''/a'', str ''x'')] \<and>
   createFileMap (multiplex one_file_trailing_space) \<noteq> Inr one_file_trailing_space \<and>
   createFileMap (multiplex []) \<noteq> Inr []"
proof -
  let ?a = "str ''// @filename: /a''" and ?b = "str ''// @filename: /b''"
  have keys: "regexp_exec fileNameRegexp (str ''/a'') = None"
    "regexp_exec fileNameRegexp (str ''/b'') = None"
    "regexp_exec fileNameRegexp (str ''/a'' @ LF # str ''b'') = None"
    by (simp_all add: regexp_eval)
  have contents: "regexp_exec fileNameRegexp (str ''x'' @ CR # LF # str ''y'') = None"
    "regexp_exec fileNameRegexp (str ''b'') = None"
    "regexp_exec fileNameRegexp (str ''x '') = None"
    by (simp_all add: regexp_eval)
  have r: "resolve_root (str ''/a'') = str ''/a''" "resolve_root (str ''/b'') = str ''/b''"
    "resolve_root (str ''/a'' @ LF # str ''b'') = str ''/a'' @ LF # str ''b''"
    by (simp_all add: resolve_root_def str_def)
  have ea: "regexp_exec fileNameRegexp ?a = Some (str ''/a'')"
    and eb: "regexp_exec fileNameRegexp ?b = Some (str ''/b'')"
    by (simp_all add: regexp_eval)
  have ok: "list_all (\<lambda>m. list_all (\<lambda>k. resolve_root k = k \<and> regexp_exec fileNameRegexp k = None) (map fst m)
                \<and> list_all (\<lambda>c. regexp_exec fileNameRegexp c = None) (map snd m))
     [two_files, one_file_crlf, one_file_two_line_path, one_file_trailing_space, [] ]"
    by (simp add: two_files_def one_file_crlf_def one_file_two_line_path_def
        one_file_trailing_space_def r keys contents exec_plain_x exec_plain_y)

  have m: "multiplex two_files = ?a @ LF # str ''x'' @ LF # LF # ?b @ LF # str ''y''"
    by (simp add: multiplex_def trim_def encode_file_def two_files_def str_def is_ws_def)
  have t: "regexp_test fileNameRegexp (?a @ LF # str ''x'' @ LF # LF # ?b @ LF # str ''y'')"
    by (simp add: regexp_eval)
  have l: "split_lines (?a @ LF # str ''x'' @ LF # LF # ?b @ LF # str ''y'')
      = ([] @ ?a # [str ''x'', [] ]) @ ?b # [str ''y'']"
    by (simp add: str_def)
  have 1: "decode_lines ([] @ ?a # [str ''x'', [] ]) = [(str ''/a'', str ''x'' @ [LF])]"
    by (subst decode_lines_block [OF ea])
      (simp_all add: exec_plain_x exec_empty_line r decode_lines_no_marker)
  have "decode_lines (([] @ ?a # [str ''x'', [] ]) @ ?b # [str ''y''])
      = map_set (decode_lines ([] @ ?a # [str ''x'', [] ])) (resolve_root (str ''/b''))
          (join [LF] [str ''y''])"
    by (rule decode_lines_block [OF eb]) (simp add: exec_plain_y)
  also have "\<dots> = [(str ''/a'', str ''x'' @ [LF]), (str ''/b'', str ''y'')]"
    unfolding 1 r by (simp add: str_def)
  finally have 2: "decode_lines (([] @ ?a # [str ''x'', [] ]) @ ?b # [str ''y''])
      = [(str ''/a'', str ''x'' @ [LF]), (str ''/b'', str ''y'')]" .
  have d1: "createFileMap (multiplex two_files) = Inr [(str ''/a'', str ''x'' @ [LF]), (str ''/b'', str ''y'')]"
    unfolding m createFileMap_def l using t 2 by (simp only: l if_False not_True_eq_False)
  have n1: "[(str ''/a'', str ''x'' @ [LF]), (str ''/b'', str ''y'')] \<noteq> two_files"
    by (simp add: two_files_def str_def)

  have m2: "multiplex one_file_crlf = ?a @ LF # str ''x'' @ CR # LF # str ''y''"
    by (simp add: multiplex_def trim_def encode_file_def one_file_crlf_def str_def is_ws_def)
  have t2: "regexp_test fileNameRegexp (?a @ LF # str ''x'' @ CR # LF # str ''y'')"
    by (simp add: regexp_eval)
  have l2: "split_lines (?a @ LF # str ''x'' @ CR # LF # str ''y'') = [] @ ?a # [str ''x'', str ''y'']"
    by (simp add: str_def)
  have "decode_lines ([] @ ?a # [str ''x'', str ''y''])
      = map_set (decode_lines []) (resolve_root (str ''/a'')) (join [LF] [str ''x'', str ''y''])"
    by (rule decode_lines_block [OF ea]) (simp add: exec_plain_x exec_plain_y)
  also have "\<dots> = [(str ''/a'', str ''x'' @ LF # str ''y'')]"
    unfolding r by (simp add: decode_lines_no_marker)
  finally have 3: "decode_lines ([] @ ?a # [str ''x'', str ''y'']) = [(str ''/a'', str ''x'' @ LF # str ''y'')]" .
  have d2: "createFileMap (multiplex one_file_crlf) = Inr [(str ''/a'', str ''x'' @ LF # str ''y'')]"
    unfolding m2 createFileMap_def l2 using t2 3 by (simp only: l2 if_False not_True_eq_False)
  have n2: "[(str ''/a'', str ''x'' @ LF # str ''y'')] \<noteq> one_file_crlf"
    by (simp add: one_file_crlf_def str_def)

  have m3: "multiplex one_file_two_line_path = ?a @ LF # str ''b'' @ LF # str ''x''"
    by (simp add: multiplex_def trim_def encode_file_def one_file_two_line_path_def str_def is_ws_def)
  have t3: "regexp_test fileNameRegexp (?a @ LF # str ''b'' @ LF # str ''x'')"
    by (simp add: regexp_eval)
  have l3: "split_lines (?a @ LF # str ''b'' @ LF # str ''x'') = [] @ ?a # [str ''b'', str ''x'']"
    by (simp add: str_def)
  have "decode_lines ([] @ ?a # [str ''b'', str ''x''])
      = map_set (decode_lines []) (resolve_root (str ''/a'')) (join [LF] [str ''b'', str ''x''])"
    by (rule decode_lines_block [OF ea]) (simp add: contents exec_plain_x)
  also have "\<dots> = [(str ''/a'', str ''b'' @ LF # str ''x'')]"
    unfolding r by (simp add: decode_lines_no_marker)
  finally have 4: "decode_lines ([] @ ?a # [str ''b'', str ''x'']) = [(str ''/a'', str ''b'' @ LF # str ''x'')]" .
  have d3: "createFileMap (multiplex one_file_two_line_path) = Inr [(str ''/a'', str ''b'' @ LF # str ''x'')]"
    unfolding m3 createFileMap_def l3 using t3 4 by (simp only: l3 if_False not_True_eq_False)
  have n3: "[(str ''/a'', str ''b'' @ LF # str ''x'')] \<noteq> one_file_two_line_path"
    by (simp add: one_file_two_line_path_def str_def)

  have m4: "multiplex one_file_trailing_space = ?a @ LF # str ''x''"
    by (simp add: multiplex_def trim_def encode_file_def one_file_trailing_space_def str_def is_ws_def)
  have t4: "regexp_test fileNameRegexp (?a @ LF # str ''x'')"
    by (simp add: regexp_eval)
  have l4: "split_lines (?a @ LF # str ''x'') = [] @ ?a # [str ''x'']"
    by (simp add: str_def)
  have "decode_lines ([] @ ?a # [str ''x''])
      = map_set (decode_lines []) (resolve_root (str ''/a'')) (join [LF] [str ''x''])"
    by (rule decode_lines_block [OF ea]) (simp add: exec_plain_x)
  also have "\<dots> = [(str ''/a'', str ''x'')]"
    unfolding r by (simp add: decode_lines_no_marker)
  finally have 5: "decode_lines ([] @ ?a # [str ''x'']) = [(str ''/a'', str ''x'')]" .
  have d4: "createFileMap (multiplex one_file_trailing_space) = Inr [(str ''/a'', str ''x'')]"
    unfolding m4 createFileMap_def l4 using t4 5 by (simp only: l4 if_False not_True_eq_False)
  have n4: "[(str ''/a'', str ''x'')] \<noteq> one_file_trailing_space"
    by (simp add: one_file_trailing_space_def str_def)

  have d5: "createFileMap (multiplex []) \<noteq> Inr []"
    by (simp add: multiplex_def trim_def createFileMap_def regexp_eval)
  show ?thesis
    unfolding d1 d2 d3 d4 using ok n1 n2 n3 n4 d5 by simp
qed

end
